theory Spec2Isabelle
  imports Main "HOL-Library.Multiset"
begin

section \<open>The FLAME image labeling tool: cache, navigation, persistence, workers\<close>

text \<open>
  The model follows \<^verbatim>\<open>src/Labeling/FLAME Image Labeling Tool.py\<close>. The module-level
  queue \<^verbatim>\<open>q\<close>, the result stacks \<^verbatim>\<open>b_rgb\<close>, \<^verbatim>\<open>b_ir\<close>, \<^verbatim>\<open>b_tiff\<close> and the local
  variables of \<^verbatim>\<open>main\<close> that the event loop mutates are the fields of one state record
  that every handler takes and returns. An exception that leaves a handler is a value.
  Python integers are \<open>int\<close>; \<^verbatim>\<open>%\<close> with a positive right operand is \<open>mod\<close> on \<open>int\<close>
  (both give a result in \<open>[0, N)\<close>). \<^verbatim>\<open>main\<close> returns before the loop when the list of
  images is empty, so the divisor \<^verbatim>\<open>len(rgb_image_files)\<close> is positive in every handler.
\<close>

subsection \<open>Python values\<close>

datatype exn = ValueError | TypeError | IndexError | DecodeError

text \<open>A Python list of length \<open>len\<close> accepts the indices \<open>-len, ..., len - 1\<close>, the
  negative ones counting from the end; any other index raises \<^verbatim>\<open>IndexError\<close>.
  \<open>py_index\<close> is the position meant, \<open>py_setitem\<close> is \<^verbatim>\<open>xs[i] = v\<close> and \<open>py_getitem\<close>
  is \<^verbatim>\<open>xs[i]\<close>.\<close>

definition py_index :: "nat \<Rightarrow> int \<Rightarrow> nat option" where
  "py_index len i =
     (if 0 \<le> i \<and> i < int len then Some (nat i)
      else if - int len \<le> i \<and> i < 0 then Some (nat (int len + i))
      else None)"

definition py_setitem :: "'a list \<Rightarrow> int \<Rightarrow> 'a \<Rightarrow> exn + 'a list" where
  "py_setitem xs i v =
     (case py_index (length xs) i of None \<Rightarrow> Inl IndexError | Some j \<Rightarrow> Inr (xs[j := v]))"

definition py_getitem :: "'a list \<Rightarrow> int \<Rightarrow> exn + 'a" where
  "py_getitem xs i =
     (case py_index (length xs) i of None \<Rightarrow> Inl IndexError | Some j \<Rightarrow> Inr (xs ! j))"

subsection \<open>Sequence, tasks and state\<close>

text \<open>What \<^verbatim>\<open>main\<close> fixes before the loop: the selected folder and its list of image names.
  \<^verbatim>\<open>BUFF_RADIUS\<close> is the module constant (7 in the source); it is a field here so that
  statements can range over every radius.\<close>

record env =
  folder_path :: string
  rgb_image_files :: "string list"
  BUFF_RADIUS :: int

definition N :: "env \<Rightarrow> int" where
  "N e = int (length (rgb_image_files e))"

text \<open>A queue entry is the tuple \<^verbatim>\<open>(index, path, rgb_ir)\<close>, or \<^verbatim>\<open>(None, None, None)\<close>,
  which the worker recognises by \<^verbatim>\<open>path is None\<close>.\<close>

datatype task = Load int string string | Sentinel

datatype label = Fire | No_Fire

record ('p, 's) state =
  index :: int
  loaded_rgb_images :: "'p option list"
  loaded_ir_images :: "'p option list"
  loaded_tiff_vals :: "'s option list"
  labels :: "label option list"
  q :: "task list"
  b_rgb :: "(int \<times> 'p) list"
  b_ir :: "(int \<times> 'p) list"
  b_tiff :: "(int \<times> 's) list"

text \<open>The expression \<^verbatim>\<open>min(((index - id) % n), ((id - index) % n))\<close>, written out at
  every use in the source.\<close>

definition circ_dist :: "int \<Rightarrow> int \<Rightarrow> int \<Rightarrow> int" where
  "circ_dist n i j = min ((i - j) mod n) ((j - i) mod n)"

definition rgb_path :: "env \<Rightarrow> int \<Rightarrow> string" where
  "rgb_path e i = folder_path e @ ''/RGB/Corrected FOV/'' @ rgb_image_files e ! nat i"

definition ir_path :: "env \<Rightarrow> int \<Rightarrow> string" where
  "ir_path e i = folder_path e @ ''/Thermal/JPG/'' @ rgb_image_files e ! nat i"

text \<open>\<^verbatim>\<open>name.split(".")[0]\<close> is the part of the name before its first dot.\<close>

definition tiff_path :: "env \<Rightarrow> int \<Rightarrow> string" where
  "tiff_path e i = folder_path e @ ''/Thermal/Celsius TIFF/''
     @ takeWhile (\<lambda>c. c \<noteq> CHR ''.'') (rgb_image_files e ! nat i) @ ''.TIFF''"

subsection \<open>Reconciliation: draining the result stacks and evicting\<close>

text \<open>
  \<^verbatim>\<open>for id, img in b: ...; b.remove((id, img))\<close>. The list iterator keeps a position \<open>k\<close>
  into the list that the body shrinks: the element read is \<open>b ! k\<close>, \<^verbatim>\<open>remove\<close> deletes
  its first occurrence, and the loop ends when \<open>k\<close> reaches the current length. The same
  loop is written three times in the source, once per stack. The workers append to the
  stacks from their own threads; a pass works on the stacks as they are when it starts.
\<close>

function drain :: "int \<Rightarrow> int \<Rightarrow> int \<Rightarrow> nat \<Rightarrow> (int \<times> 'a) list \<Rightarrow> 'a option list
    \<Rightarrow> exn + ((int \<times> 'a) list \<times> 'a option list)" where
  "drain n r idx k b loaded =
     (if k < length b then
        (case py_setitem loaded (fst (b ! k))
                (if circ_dist n idx (fst (b ! k)) \<le> r then Some (snd (b ! k)) else None) of
           Inl x \<Rightarrow> Inl x
         | Inr loaded' \<Rightarrow> drain n r idx (Suc k) (remove1 (b ! k) b) loaded')
      else Inr (b, loaded))"
  by pat_completeness auto
termination
  by (relation "measure (\<lambda>(n, r, idx, k, b, loaded). length b - k)")
     (auto simp: length_remove1)

declare drain.simps [simp del]

text \<open>\<^verbatim>\<open>for ix, item in enumerate(loaded): if item is None: continue; if dist > R:
  loaded[ix] = None\<close>.\<close>

definition evict :: "int \<Rightarrow> int \<Rightarrow> int \<Rightarrow> 'a option list \<Rightarrow> 'a option list" where
  "evict n r idx loaded =
     map (\<lambda>(ix, item). if item = None then item
                        else if circ_dist n idx (int ix) > r then None else item)
         (List.enumerate 0 loaded)"

text \<open>The block that closes every iteration of the event loop: the three drains, then the
  eviction scans, which the source has for the two image vectors only.\<close>

definition reconcile :: "env \<Rightarrow> ('p, 's) state \<Rightarrow> exn + ('p, 's) state" where
  "reconcile e st =
     (case drain (N e) (BUFF_RADIUS e) (index st) 0 (b_rgb st) (loaded_rgb_images st) of
        Inl x \<Rightarrow> Inl x
      | Inr (b1, l1) \<Rightarrow>
     (case drain (N e) (BUFF_RADIUS e) (index st) 0 (b_ir st) (loaded_ir_images st) of
        Inl x \<Rightarrow> Inl x
      | Inr (b2, l2) \<Rightarrow>
     (case drain (N e) (BUFF_RADIUS e) (index st) 0 (b_tiff st) (loaded_tiff_vals st) of
        Inl x \<Rightarrow> Inl x
      | Inr (b3, l3) \<Rightarrow>
          Inr (st\<lparr>b_rgb := b1, b_ir := b2, b_tiff := b3,
                  loaded_rgb_images := evict (N e) (BUFF_RADIUS e) (index st) l1,
                  loaded_ir_images := evict (N e) (BUFF_RADIUS e) (index st) l2,
                  loaded_tiff_vals := l3\<rparr>))))"

subsection \<open>Navigation\<close>

text \<open>The arrow keys. The \<^verbatim>\<open>tiff\<close> task is commented out in the source.\<close>

definition step_left :: "env \<Rightarrow> ('p, 's) state \<Rightarrow> ('p, 's) state" where
  "step_left e st =
     (let index' = (index st - 1) mod N e;
          t = (index' - BUFF_RADIUS e) mod N e
      in st\<lparr>index := index',
             q := q st @ [Load t (rgb_path e t) ''rgb'', Load t (ir_path e t) ''ir'']\<rparr>)"

definition step_right :: "env \<Rightarrow> ('p, 's) state \<Rightarrow> ('p, 's) state" where
  "step_right e st =
     (let index' = (index st + 1) mod N e;
          t = (index' + BUFF_RADIUS e) mod N e
      in st\<lparr>index := index',
             q := q st @ [Load t (rgb_path e t) ''rgb'', Load t (ir_path e t) ''ir'']\<rparr>)"

text \<open>\<^verbatim>\<open>for i in range(-BUFF_RADIUS, BUFF_RADIUS + 1)\<close>: the tasks put by Go To and Load
  State (three per position), and those of the initial preload (two per position).\<close>

definition window_tasks :: "env \<Rightarrow> int \<Rightarrow> task list" where
  "window_tasks e idx =
     concat (map (\<lambda>i. let t = (idx + i) mod N e in
                    [Load t (rgb_path e t) ''rgb'', Load t (ir_path e t) ''ir'',
                     Load t (tiff_path e t) ''tiff''])
                 [- BUFF_RADIUS e .. BUFF_RADIUS e])"

definition starting_images :: "env \<Rightarrow> int \<Rightarrow> task list" where
  "starting_images e idx =
     concat (map (\<lambda>i. let t = (idx + i) mod N e in
                    [Load t (rgb_path e t) ''rgb'', Load t (ir_path e t) ''ir''])
                 [- BUFF_RADIUS e .. BUFF_RADIUS e])"

subsection \<open>Strings: \<^verbatim>\<open>int()\<close>, \<^verbatim>\<open>str()\<close>, \<^verbatim>\<open>readline\<close>, \<^verbatim>\<open>split\<close>\<close>

text \<open>
  Text is a list of 8-bit characters, so the model covers state files written in ASCII,
  which is all that Save State writes. \<^verbatim>\<open>int(s)\<close> on a string: surrounding white space is
  dropped, one sign is allowed, then decimal digits with single underscores between
  digits; anything else raises \<^verbatim>\<open>ValueError\<close>.
\<close>

definition is_space :: "char \<Rightarrow> bool" where
  "is_space c = (c \<in> set [CHR 0x09, CHR 0x0A, CHR 0x0B, CHR 0x0C, CHR 0x0D,
                            CHR 0x1C, CHR 0x1D, CHR 0x1E, CHR 0x1F, CHR 0x20])"

definition strip :: "string \<Rightarrow> string" where
  "strip s = rev (dropWhile is_space (rev (dropWhile is_space s)))"

definition is_digit :: "char \<Rightarrow> bool" where
  "is_digit c = (48 \<le> (of_char c :: nat) \<and> (of_char c :: nat) \<le> 57)"

definition digit_val :: "char \<Rightarrow> nat" where
  "digit_val c = of_char c - 48"

fun digits_ok :: "string \<Rightarrow> bool" where
  "digits_ok [] = False"
| "digits_ok [c] = is_digit c"
| "digits_ok (c # d # cs) =
     (is_digit c \<and> (if d = CHR ''_'' then digits_ok cs else digits_ok (d # cs)))"

definition digits_val :: "string \<Rightarrow> nat" where
  "digits_val cs = foldl (\<lambda>a c. 10 * a + digit_val c) 0 (filter (\<lambda>c. c \<noteq> CHR ''_'') cs)"

definition py_int :: "string \<Rightarrow> int option" where
  "py_int s =
     (case strip s of
        [] \<Rightarrow> None
      | c # cs \<Rightarrow>
          if c = CHR ''-'' then (if digits_ok cs then Some (- int (digits_val cs)) else None)
          else if c = CHR ''+'' then (if digits_ok cs then Some (int (digits_val cs)) else None)
          else if digits_ok (c # cs) then Some (int (digits_val (c # cs))) else None)"

text \<open>\<^verbatim>\<open>str(n)\<close> of an integer.\<close>

fun str_nat :: "nat \<Rightarrow> string" where
  "str_nat n = (if n < 10 then [char_of (48 + n)]
                else str_nat (n div 10) @ [char_of (48 + n mod 10)])"

declare str_nat.simps [simp del]

definition py_str_int :: "int \<Rightarrow> string" where
  "py_str_int i = (if i < 0 then CHR ''-'' # str_nat (nat (- i)) else str_nat (nat i))"

text \<open>\<^verbatim>\<open>file.readline()\<close>: the text up to and including the first newline, and what is
  left of the file.\<close>

fun readline :: "string \<Rightarrow> string \<times> string" where
  "readline [] = ([], [])"
| "readline (c # cs) =
     (if c = CHR 0x0A then ([c], cs) else (case readline cs of (l, r) \<Rightarrow> (c # l, r)))"

text \<open>\<^verbatim>\<open>s.split(sep)\<close> for a separator of one character: one more piece than there are
  separators.\<close>

fun split_on :: "char \<Rightarrow> string \<Rightarrow> string list" where
  "split_on sep [] = [[]]"
| "split_on sep (c # cs) =
     (if c = sep then [] # split_on sep cs
      else (case split_on sep cs of [] \<Rightarrow> [[c]] | p # ps \<Rightarrow> (c # p) # ps))"

text \<open>\<^verbatim>\<open>sep.join(xs)\<close>.\<close>

fun join :: "string \<Rightarrow> string list \<Rightarrow> string" where
  "join sep [] = []"
| "join sep [x] = x"
| "join sep (x # y # ys) = x @ sep @ join sep (y # ys)"

text \<open>The slice \<^verbatim>\<open>s[1:-2]\<close>.\<close>

definition slice_1_m2 :: "string \<Rightarrow> string" where
  "slice_1_m2 s = butlast (butlast (tl s))"

subsection \<open>Save State and Load State\<close>

text \<open>The label vector holds \<^verbatim>\<open>"Fire"\<close>, \<^verbatim>\<open>"No Fire"\<close> or \<^verbatim>\<open>None\<close>; \<^verbatim>\<open>repr\<close> of these
  and \<^verbatim>\<open>str\<close> of the list are what \<^verbatim>\<open>f'{labels}'\<close> writes.\<close>

fun py_repr_label :: "label option \<Rightarrow> string" where
  "py_repr_label None = ''None''"
| "py_repr_label (Some Fire) = [CHR 0x27] @ ''Fire'' @ [CHR 0x27]"
| "py_repr_label (Some No_Fire) = [CHR 0x27] @ ''No Fire'' @ [CHR 0x27]"

definition py_str_labels :: "label option list \<Rightarrow> string" where
  "py_str_labels ls = ''['' @ join '', '' (map py_repr_label ls) @ '']''"

definition save_state_text :: "env \<Rightarrow> ('p, 's) state \<Rightarrow> string" where
  "save_state_text e st =
     py_str_int (N e) @ [CHR 0x0A] @ py_str_int (index st) @ [CHR 0x0A]
       @ py_str_labels (labels st) @ [CHR 0x0A]"

text \<open>\<^verbatim>\<open>confirm = sg.popup_yes_no(...)\<close> is \<^verbatim>\<open>"Yes"\<close>, \<^verbatim>\<open>"No"\<close> or \<^verbatim>\<open>None\<close>, and the file is
  written \<^verbatim>\<open>if confirm\<close>, that is for every non-empty string. The result is the text of
  \<^verbatim>\<open>./save_state.txt\<close> when it is written.\<close>

definition save_state :: "env \<Rightarrow> string option \<Rightarrow> ('p, 's) state \<Rightarrow> string option" where
  "save_state e confirm st =
     (case confirm of None \<Rightarrow> None
      | Some a \<Rightarrow> if a = [] then None else Some (save_state_text e st))"

datatype popup =
    Select_Valid_File | Different_Number_Of_Files | Unknown_Entry | Length_Mismatch
  | Loaded_State | Outside_Range | Set_Index int | State_Saved

text \<open>What a handler of the event loop does to the loop: an exception leaves \<^verbatim>\<open>main\<close>;
  \<^verbatim>\<open>continue\<close> starts the next iteration without the reconciliation block; otherwise
  the handler ends and the iteration goes on. The popups shown are recorded in order.\<close>

datatype ('p, 's) result =
    Raised exn
  | Continued "popup list" "('p, 's) state"
  | Fallthrough "popup list" "('p, 's) state"

text \<open>The \<^verbatim>\<open>match entry\<close> loop. The \<^verbatim>\<open>continue\<close> of its default case belongs to this
  \<^verbatim>\<open>for\<close> loop: an unknown entry shows a popup and is skipped.\<close>

fun parse_labels :: "string list \<Rightarrow> label option list \<times> popup list" where
  "parse_labels [] = ([], [])"
| "parse_labels (x # xs) =
     (case parse_labels xs of (ls, ps) \<Rightarrow>
        if x = ''No Fire'' then (Some No_Fire # ls, ps)
        else if x = ''NoFire'' then (Some No_Fire # ls, ps)
        else if x = ''Fire'' then (Some Fire # ls, ps)
        else if x = ''None'' then (None # ls, ps)
        else (ls, Unknown_Entry # ps))"

definition labels_raw :: "string \<Rightarrow> string list" where
  "labels_raw line =
     split_on (CHR '','')
       (slice_1_m2 (filter (\<lambda>c. c \<noteq> CHR 0x27) (filter (\<lambda>c. c \<noteq> CHR '' '') line)))"

text \<open>The Load State handler; \<open>f\<close> is the text of the file chosen in the dialog, \<open>None\<close> when
  the dialog returns \<^verbatim>\<open>None\<close>. \<^verbatim>\<open>index\<close> is assigned as soon as the second line is read.\<close>

definition load_state :: "env \<Rightarrow> string option \<Rightarrow> ('p, 's) state \<Rightarrow> ('p, 's) result" where
  "load_state e f st =
     (case f of
        None \<Rightarrow> Continued [Select_Valid_File] st
      | Some content \<Rightarrow>
     (case readline content of (l1, rest1) \<Rightarrow>
     (case py_int l1 of
        None \<Rightarrow> Raised ValueError
      | Some num_files \<Rightarrow>
          if num_files \<noteq> N e then Continued [Different_Number_Of_Files] st
          else
     (case readline rest1 of (l2, rest2) \<Rightarrow>
     (case py_int l2 of
        None \<Rightarrow> Raised ValueError
      | Some idx \<Rightarrow>
     (case readline rest2 of (l3, rest3) \<Rightarrow>
     (case parse_labels (labels_raw l3) of (parsed_labels, pops) \<Rightarrow>
          if length parsed_labels \<noteq> length (labels st)
          then Continued (pops @ [Length_Mismatch]) (st\<lparr>index := idx\<rparr>)
          else Fallthrough (pops @ [Loaded_State])
                 (st\<lparr>index := idx, labels := parsed_labels,
                     loaded_rgb_images :=
                       evict (N e) (BUFF_RADIUS e) idx (loaded_rgb_images st),
                     loaded_ir_images :=
                       evict (N e) (BUFF_RADIUS e) idx (loaded_ir_images st),
                     q := q st @ window_tasks e idx\<rparr>))))))))"

subsection \<open>Go To\<close>

text \<open>\<open>new_index\<close> is what \<^verbatim>\<open>sg.popup_get_text\<close> returns: the text typed, or \<^verbatim>\<open>None\<close> when
  the dialog is cancelled. \<^verbatim>\<open>int(None)\<close> raises \<^verbatim>\<open>TypeError\<close>.\<close>

definition goto :: "env \<Rightarrow> string option \<Rightarrow> ('p, 's) state \<Rightarrow> ('p, 's) result" where
  "goto e new_index st =
     (case new_index of
        None \<Rightarrow> Raised TypeError
      | Some s \<Rightarrow>
     (case py_int s of
        None \<Rightarrow> Raised ValueError
      | Some t \<Rightarrow>
          if \<not> (t > 0 \<and> t < N e + 1) then Continued [Outside_Range] st
          else Fallthrough [Set_Index (t - 1 + 1)]
                 (st\<lparr>index := t - 1,
                     loaded_rgb_images :=
                       evict (N e) (BUFF_RADIUS e) (t - 1) (loaded_rgb_images st),
                     loaded_ir_images :=
                       evict (N e) (BUFF_RADIUS e) (t - 1) (loaded_ir_images st),
                     q := q st @ window_tasks e (t - 1)\<rparr>)))"

subsection \<open>One iteration of the event loop\<close>

datatype event = Left | Right | Goto "string option" | Load_State "string option"
  | Save_State "string option" | Timeout

definition handle :: "env \<Rightarrow> event \<Rightarrow> ('p, 's) state \<Rightarrow> ('p, 's) result" where
  "handle e ev st =
     (case ev of
        Left \<Rightarrow> Fallthrough [] (step_left e st)
      | Right \<Rightarrow> Fallthrough [] (step_right e st)
      | Goto new_index \<Rightarrow> goto e new_index st
      | Load_State f \<Rightarrow> load_state e f st
      | Save_State confirm \<Rightarrow>
          Fallthrough (case save_state e confirm st of None \<Rightarrow> [] | Some _ \<Rightarrow> [State_Saved]) st
      | Timeout \<Rightarrow> Fallthrough [] st)"

text \<open>The reads that update the window after the reconciliation block; each raises
  \<^verbatim>\<open>IndexError\<close> for an index outside the list.\<close>

definition display :: "env \<Rightarrow> ('p, 's) state \<Rightarrow> exn + unit" where
  "display e st =
     (case py_getitem (labels st) (index st) of Inl x \<Rightarrow> Inl x | Inr _ \<Rightarrow>
     (case py_getitem (loaded_rgb_images st) (index st) of Inl x \<Rightarrow> Inl x | Inr _ \<Rightarrow>
     (case py_getitem (loaded_ir_images st) (index st) of Inl x \<Rightarrow> Inl x | Inr _ \<Rightarrow>
     (case py_getitem (loaded_tiff_vals st) (index st) of Inl x \<Rightarrow> Inl x | Inr _ \<Rightarrow>
     (case py_getitem (rgb_image_files e) (index st) of Inl x \<Rightarrow> Inl x | Inr _ \<Rightarrow>
        Inr ())))))"

definition tick :: "env \<Rightarrow> event \<Rightarrow> ('p, 's) state \<Rightarrow> exn + ('p, 's) state" where
  "tick e ev st =
     (case handle e ev st of
        Raised x \<Rightarrow> Inl x
      | Continued _ st' \<Rightarrow> Inr st'
      | Fallthrough _ st' \<Rightarrow>
          (case reconcile e st' of
             Inl x \<Rightarrow> Inl x
           | Inr st'' \<Rightarrow> (case display e st'' of Inl x \<Rightarrow> Inl x | Inr _ \<Rightarrow> Inr st'')))"

subsection \<open>Start of \<^verbatim>\<open>main\<close>\<close>

text \<open>Lines 163 to 176: the index, the empty vectors, and the initial tasks put on the
  (so far empty) queue by \<^verbatim>\<open>create_queue\<close>.\<close>

definition preload :: "env \<Rightarrow> ('p, 's) state" where
  "preload e =
     \<lparr>index = 0,
      loaded_rgb_images = replicate (length (rgb_image_files e)) None,
      loaded_ir_images = replicate (length (rgb_image_files e)) None,
      loaded_tiff_vals = replicate (length (rgb_image_files e)) None,
      labels = replicate (length (rgb_image_files e)) None,
      q = starting_images e 0,
      b_rgb = [], b_ir = [], b_tiff = []\<rparr>"

text \<open>Lines 180 to 200, after \<^verbatim>\<open>q.join()\<close>: the three drains, with no eviction scan.\<close>

definition first_drain :: "env \<Rightarrow> ('p, 's) state \<Rightarrow> exn + ('p, 's) state" where
  "first_drain e st =
     (case drain (N e) (BUFF_RADIUS e) (index st) 0 (b_rgb st) (loaded_rgb_images st) of
        Inl x \<Rightarrow> Inl x
      | Inr (b1, l1) \<Rightarrow>
     (case drain (N e) (BUFF_RADIUS e) (index st) 0 (b_ir st) (loaded_ir_images st) of
        Inl x \<Rightarrow> Inl x
      | Inr (b2, l2) \<Rightarrow>
     (case drain (N e) (BUFF_RADIUS e) (index st) 0 (b_tiff st) (loaded_tiff_vals st) of
        Inl x \<Rightarrow> Inl x
      | Inr (b3, l3) \<Rightarrow>
          Inr (st\<lparr>b_rgb := b1, b_ir := b2, b_tiff := b3,
                  loaded_rgb_images := l1, loaded_ir_images := l2,
                  loaded_tiff_vals := l3\<rparr>))))"

subsection \<open>The workers\<close>

text \<open>
  The decoders \<^verbatim>\<open>load_image\<close> and \<^verbatim>\<open>get_temp_stats_from_tiff\<close> call OpenCV and PIL on a
  file; they are parameters here (\<open>li\<close> and \<open>gt\<close> in the statements below), functions of
  the path that return the payload or the exception raised.

  A worker thread runs \<^verbatim>\<open>img_loader\<close>. Between two accesses to the shared queue and
  stacks it is in one of four places: about to call \<^verbatim>\<open>q.get()\<close>; holding a task it
  took, before the decode and the append; out of the loop by \<^verbatim>\<open>break\<close>; or ended by an
  exception, since \<^verbatim>\<open>img_loader\<close> has no \<^verbatim>\<open>try\<close>.
\<close>

datatype wstate = Waiting | Working int string string | Exited | Crashed exn

text \<open>One step of worker \<open>w\<close>; \<open>None\<close> when it cannot move (blocked in \<^verbatim>\<open>q.get()\<close> on an
  empty queue, or no longer running).\<close>

definition img_loader_step ::
  "(string \<Rightarrow> exn + 'p) \<Rightarrow> (string \<Rightarrow> exn + 's) \<Rightarrow> nat
     \<Rightarrow> wstate list \<times> ('p, 's) state \<Rightarrow> (wstate list \<times> ('p, 's) state) option" where
  "img_loader_step load_image get_temp_stats_from_tiff w c =
     (case c of (ws, st) \<Rightarrow>
      if \<not> w < length ws then None
      else (case ws ! w of
        Waiting \<Rightarrow>
          (case q st of
             [] \<Rightarrow> None
           | Sentinel # ts \<Rightarrow> Some (ws[w := Exited], st\<lparr>q := ts\<rparr>)
           | Load i p k # ts \<Rightarrow> Some (ws[w := Working i p k], st\<lparr>q := ts\<rparr>))
      | Working i p k \<Rightarrow>
          if k = ''rgb'' then
            (case load_image p of
               Inl x \<Rightarrow> Some (ws[w := Crashed x], st)
             | Inr img \<Rightarrow> Some (ws[w := Waiting], st\<lparr>b_rgb := b_rgb st @ [(i, img)]\<rparr>))
          else if k = ''ir'' then
            (case load_image p of
               Inl x \<Rightarrow> Some (ws[w := Crashed x], st)
             | Inr img \<Rightarrow> Some (ws[w := Waiting], st\<lparr>b_ir := b_ir st @ [(i, img)]\<rparr>))
          else if k = ''tiff'' then
            (case get_temp_stats_from_tiff p of
               Inl x \<Rightarrow> Some (ws[w := Crashed x], st)
             | Inr v \<Rightarrow> Some (ws[w := Waiting], st\<lparr>b_tiff := b_tiff st @ [(i, v)]\<rparr>))
          else Some (ws[w := Waiting], st)
      | Exited \<Rightarrow> None
      | Crashed x \<Rightarrow> None))"

text \<open>\<^verbatim>\<open>start_img_loaders(worker_pool)\<close>: that many threads, each at the top of its loop.\<close>

definition start_img_loaders :: "nat \<Rightarrow> wstate list" where
  "start_img_loaders worker_pool = replicate worker_pool Waiting"

text \<open>
  \<^verbatim>\<open>stop_workers(threads)\<close> runs on the control thread while the workers run: first one
  \<^verbatim>\<open>q.put((None, None, None))\<close> per thread, then \<^verbatim>\<open>t.join()\<close> for each thread in turn,
  which returns once that thread has ended (by \<^verbatim>\<open>break\<close> or by an exception).
  \<open>Putting n\<close>: \<open>n\<close> sentinels are still to be put; \<open>Joining j\<close>: waiting for thread \<open>j\<close>.
\<close>

datatype stop_pc = Putting nat | Joining nat | Returned

definition ended :: "wstate \<Rightarrow> bool" where
  "ended s = (case s of Exited \<Rightarrow> True | Crashed x \<Rightarrow> True | _ \<Rightarrow> False)"

definition stop_workers_step ::
  "stop_pc \<times> wstate list \<times> ('p, 's) state \<Rightarrow> (stop_pc \<times> wstate list \<times> ('p, 's) state) option" where
  "stop_workers_step c =
     (case c of (pc, ws, st) \<Rightarrow>
      (case pc of
         Putting n \<Rightarrow>
           (case n of
              0 \<Rightarrow> Some (Joining 0, ws, st)
            | Suc m \<Rightarrow> Some (Putting m, ws, st\<lparr>q := q st @ [Sentinel]\<rparr>))
       | Joining j \<Rightarrow>
           if \<not> j < length ws then Some (Returned, ws, st)
           else if ended (ws ! j) then Some (Joining (Suc j), ws, st)
           else None
       | Returned \<Rightarrow> None))"

definition stop_workers :: "wstate list \<Rightarrow> ('p, 's) state \<Rightarrow> stop_pc \<times> wstate list \<times> ('p, 's) state" where
  "stop_workers threads st = (Putting (length threads), threads, st)"

text \<open>The threads interleave: a schedule names, step by step, the thread that moves. A
  thread that cannot move when it is named stays where it is.\<close>

datatype actor = Control | Worker nat

definition sys_step ::
  "(string \<Rightarrow> exn + 'p) \<Rightarrow> (string \<Rightarrow> exn + 's) \<Rightarrow> actor
     \<Rightarrow> stop_pc \<times> wstate list \<times> ('p, 's) state \<Rightarrow> (stop_pc \<times> wstate list \<times> ('p, 's) state) option" where
  "sys_step li gt a c =
     (case a of
        Control \<Rightarrow> stop_workers_step c
      | Worker w \<Rightarrow>
          (case c of (pc, wc) \<Rightarrow>
             (case img_loader_step li gt w wc of
                None \<Rightarrow> None
              | Some wc' \<Rightarrow> Some (pc, wc'))))"

fun run ::
  "(string \<Rightarrow> exn + 'p) \<Rightarrow> (string \<Rightarrow> exn + 's) \<Rightarrow> actor list
     \<Rightarrow> stop_pc \<times> wstate list \<times> ('p, 's) state \<Rightarrow> stop_pc \<times> wstate list \<times> ('p, 's) state" where
  "run li gt [] c = c"
| "run li gt (a # as) c =
     (case sys_step li gt a c of None \<Rightarrow> run li gt as c | Some c' \<Rightarrow> run li gt as c')"

text \<open>Workers alone, while the control thread does something else.\<close>

fun run_workers ::
  "(string \<Rightarrow> exn + 'p) \<Rightarrow> (string \<Rightarrow> exn + 's) \<Rightarrow> nat list
     \<Rightarrow> wstate list \<times> ('p, 's) state \<Rightarrow> wstate list \<times> ('p, 's) state" where
  "run_workers li gt [] c = c"
| "run_workers li gt (w # ws) c =
     (case img_loader_step li gt w c of
        None \<Rightarrow> run_workers li gt ws c
      | Some c' \<Rightarrow> run_workers li gt ws c')"

subsection \<open>What a stop of the workers is measured against\<close>

text \<open>A load task decodes when the decoder of its kind returns a payload; the worker
  ignores a task of any other kind.\<close>

definition ok :: "exn + 'a \<Rightarrow> bool" where
  "ok r = (case r of Inl x \<Rightarrow> False | Inr v \<Rightarrow> True)"

definition decodes :: "(string \<Rightarrow> exn + 'p) \<Rightarrow> (string \<Rightarrow> exn + 's) \<Rightarrow> task \<Rightarrow> bool" where
  "decodes li gt t =
     (case t of
        Sentinel \<Rightarrow> False
      | Load i p k \<Rightarrow>
          if k = ''rgb'' \<or> k = ''ir'' then ok (li p)
          else if k = ''tiff'' then ok (gt p) else True)"

text \<open>A worker that is running: at \<^verbatim>\<open>q.get()\<close>, or holding a task that decodes.\<close>

definition live :: "(string \<Rightarrow> exn + 'p) \<Rightarrow> (string \<Rightarrow> exn + 's) \<Rightarrow> wstate \<Rightarrow> bool" where
  "live li gt s =
     (case s of Waiting \<Rightarrow> True | Working i p k \<Rightarrow> decodes li gt (Load i p k)
      | Exited \<Rightarrow> False | Crashed x \<Rightarrow> False)"

text \<open>The entry that a task of the given kind adds to the stack of that kind, and the
  entries still owed by the tasks on the queue and in the hands of the workers.\<close>

definition out_of :: "string \<Rightarrow> (string \<Rightarrow> exn + 'a) \<Rightarrow> task \<Rightarrow> (int \<times> 'a) multiset" where
  "out_of kind dec t =
     (case t of
        Sentinel \<Rightarrow> {#}
      | Load i p k \<Rightarrow>
          if k = kind then (case dec p of Inl x \<Rightarrow> {#} | Inr v \<Rightarrow> {#(i, v)#}) else {#})"

definition holding :: "wstate \<Rightarrow> task list" where
  "holding s = (case s of Working i p k \<Rightarrow> [Load i p k] | _ \<Rightarrow> [])"

definition owed ::
  "string \<Rightarrow> (string \<Rightarrow> exn + 'a) \<Rightarrow> wstate list \<Rightarrow> task list \<Rightarrow> (int \<times> 'a) multiset" where
  "owed kind dec ws qu =
     sum_list (map (out_of kind dec) qu)
       + sum_list (map (\<lambda>s. sum_list (map (out_of kind dec) (holding s))) ws)"

definition exited :: "wstate list \<Rightarrow> nat" where
  "exited ws = length (filter (\<lambda>s. s = Exited) ws)"

definition to_put :: "stop_pc \<Rightarrow> nat" where
  "to_put pc = (case pc of Putting n \<Rightarrow> n | _ \<Rightarrow> 0)"

text \<open>A bound on the steps left: every step of any thread makes it smaller.\<close>

definition effort :: "stop_pc \<times> wstate list \<times> ('p, 's) state \<Rightarrow> nat" where
  "effort c =
     (case c of (pc, ws, st) \<Rightarrow>
        3 * length (q st) + length (filter (\<lambda>s. holding s \<noteq> []) ws)
          + (case pc of Putting n \<Rightarrow> 4 * n + length ws + 2
             | Joining j \<Rightarrow> Suc (length ws - j)
             | Returned \<Rightarrow> 0))"

subsection \<open>Reading tasks\<close>

definition task_kind :: "task \<Rightarrow> string option" where
  "task_kind t = (case t of Load i p k \<Rightarrow> Some k | Sentinel \<Rightarrow> None)"

definition task_index :: "task \<Rightarrow> int option" where
  "task_index t = (case t of Load i p k \<Rightarrow> Some i | Sentinel \<Rightarrow> None)"

definition of_kind :: "string \<Rightarrow> task list \<Rightarrow> task list" where
  "of_kind k ts = filter (\<lambda>t. task_kind t = Some k) ts"

text \<open>The non-empty slots of a vector.\<close>

definition populated :: "'a option list \<Rightarrow> nat list" where
  "populated loaded = filter (\<lambda>i. loaded ! i \<noteq> None) [0..<length loaded]"

subsection \<open>A sequence of twenty images\<close>

definition seq20 :: env where
  "seq20 = \<lparr>folder_path = ''In'',
            rgb_image_files = map (\<lambda>k. str_nat k @ ''.JPG'') [0..<20],
            BUFF_RADIUS = 7\<rparr>"

subsection \<open>Runs of the program\<close>

text \<open>One worker that serves the whole queue while the control thread waits: two steps
  per task, the take and the decode.\<close>

definition serve ::
  "(string \<Rightarrow> exn + 'p) \<Rightarrow> (string \<Rightarrow> exn + 's) \<Rightarrow> ('p, 's) state \<Rightarrow> ('p, 's) state" where
  "serve li gt st =
     snd (run_workers li gt (replicate (2 * length (q st)) 0) (start_img_loaders 1, st))"

text \<open>A run of \<^verbatim>\<open>main\<close> in phases: an iteration of the event loop for an event, or the
  worker serving the queue between two iterations. The run starts with the preload, the
  wait for the workers (\<^verbatim>\<open>q.join()\<close>) and the first drain.\<close>

datatype phase = Ev event | Serve

fun session ::
  "env \<Rightarrow> (string \<Rightarrow> exn + 'p) \<Rightarrow> (string \<Rightarrow> exn + 's) \<Rightarrow> phase list
     \<Rightarrow> ('p, 's) state \<Rightarrow> exn + ('p, 's) state" where
  "session e li gt [] st = Inr st"
| "session e li gt (Ev ev # ps) st =
     (case tick e ev st of Inl x \<Rightarrow> Inl x | Inr st' \<Rightarrow> session e li gt ps st')"
| "session e li gt (Serve # ps) st = session e li gt ps (serve li gt st)"

definition main ::
  "env \<Rightarrow> (string \<Rightarrow> exn + 'p) \<Rightarrow> (string \<Rightarrow> exn + 's) \<Rightarrow> phase list
     \<Rightarrow> exn + ('p, 's) state" where
  "main e li gt ps =
     (case first_drain e (serve li gt (preload e)) of
        Inl x \<Rightarrow> Inl x
      | Inr st \<Rightarrow> session e li gt ps st)"

text \<open>Decoders for the runs below: every file decodes, the payload stands for its
  content.\<close>

definition echo :: "string \<Rightarrow> exn + nat" where
  "echo p = Inr (length p)"

subsection \<open>The invariant of a stop\<close>

text \<open>What holds of the control thread's place in \<^verbatim>\<open>stop_workers\<close>: the threads it has
  joined so far have left their loop.\<close>

fun joined :: "stop_pc \<Rightarrow> wstate list \<Rightarrow> bool" where
  "joined (Putting n) ws = True"
| "joined (Joining j) ws = (j \<le> length ws \<and> list_all (\<lambda>s. s = Exited) (take j ws))"
| "joined Returned ws = list_all (\<lambda>s. s = Exited) ws"

text \<open>While \<^verbatim>\<open>stop_workers\<close> runs with tasks that decode: the queue is load tasks that
  decode followed by sentinels; no worker has crashed; once a worker has left its loop
  no load task is on the queue; and the sentinels on the queue, those still to be put
  and the workers that have left add up to the number of workers.\<close>

definition stop_inv ::
  "(string \<Rightarrow> exn + 'p) \<Rightarrow> (string \<Rightarrow> exn + 's) \<Rightarrow> stop_pc \<times> wstate list \<times> ('p, 's) state \<Rightarrow> bool" where
  "stop_inv li gt c =
     (case c of (pc, ws, st) \<Rightarrow>
        \<exists>tasks m. q st = tasks @ replicate m Sentinel
          \<and> list_all (decodes li gt) tasks
          \<and> list_all (\<lambda>s. live li gt s \<or> s = Exited) ws
          \<and> (Exited \<in> set ws \<longrightarrow> tasks = [])
          \<and> m + to_put pc + exited ws = length ws
          \<and> joined pc ws)"

subsection \<open>Decoders and queues for the runs of the workers\<close>

text \<open>A decoder that fails on one unreadable file; a queue of three pending tasks; a
  schedule for ten workers, the control thread in between.\<close>

definition picky :: "string \<Rightarrow> exn + nat" where
  "picky p = (if p = ''missing.JPG'' then Inl DecodeError else Inr (length p))"

definition three_pending :: "(nat, nat) state" where
  "three_pending =
     (preload seq20)\<lparr>q := [Load 8 (rgb_path seq20 8) ''rgb'', Load 8 (ir_path seq20 8) ''ir'',
                           Load 8 (tiff_path seq20 8) ''tiff'']\<rparr>"

definition ten_and_three :: "actor list" where
  "ten_and_three =
     [Worker 0, Control, Worker 1, Control, Control, Worker 0, Worker 2, Worker 3]
       @ replicate 8 Control @ [Worker 2, Worker 1]
       @ map Worker [0, 1, 2, 3, 4, 5, 6, 7, 8, 9] @ replicate 12 Control"

section \<open>Properties\<close>

lemma drain_length:
  "drain n r idx k b loaded = Inr (b', loaded') \<Longrightarrow> length loaded' = length loaded"
proof (induction n r idx k b loaded rule: drain.induct)
  case (1 n r idx k b loaded)
  show ?case
  proof (cases "k < length b")
    case False
    with "1.prems" show ?thesis by (simp add: drain.simps)
  next
    case True
    with "1.prems" obtain l1 where
      s: "py_setitem loaded (fst (b ! k))
            (if circ_dist n idx (fst (b ! k)) \<le> r then Some (snd (b ! k)) else None) = Inr l1"
      and d: "drain n r idx (Suc k) (remove1 (b ! k) b) l1 = Inr (b', loaded')"
      by (subst (asm) drain.simps) (simp split: sum.splits)
    from s have "length l1 = length loaded"
      by (auto simp: py_setitem_def split: option.splits)
    with "1.IH"[OF True s d] show ?thesis by simp
  qed
qed


subsection \<open>Eviction and window tasks\<close>

lemma evict_length: "length (evict n r idx loaded) = length loaded"
  by (simp add: evict_def)

lemma evict_nth:
  "i < length loaded \<Longrightarrow>
   evict n r idx loaded ! i =
     (if loaded ! i \<noteq> None \<and> circ_dist n idx (int i) > r then None else loaded ! i)"
  by (simp add: evict_def nth_enumerate_eq)

lemma evict_within:
  "i < length loaded \<Longrightarrow> evict n r idx loaded ! i \<noteq> None \<Longrightarrow> circ_dist n idx (int i) \<le> r"
  by (simp add: evict_nth split: if_splits)

lemma evict_outside:
  "i < length loaded \<Longrightarrow> circ_dist n idx (int i) > r \<Longrightarrow> evict n r idx loaded ! i = None"
  by (simp add: evict_nth)

lemma drain_nil: "drain n r idx k [] loaded = Inr ([], loaded)"
  by (simp add: drain.simps)



lemma length_upto_radius: "0 \<le> r \<Longrightarrow> length [- r .. r] = nat (2 * r + 1)"
  by simp


subsection \<open>Integers and label vectors as text\<close>

lemma is_digit_char_of: "(k::nat) < 10 \<Longrightarrow> is_digit (char_of (48 + k))"
  by (simp add: is_digit_def)

lemma digit_val_char_of: "(k::nat) < 10 \<Longrightarrow> digit_val (char_of (48 + k)) = k"
  by (simp add: digit_val_def)

lemma str_nat_digits: "list_all is_digit (str_nat n)"
proof (induction n rule: str_nat.induct)
  case (1 n)
  show ?case
  proof (cases "n < 10")
    case True
    then show ?thesis by (subst str_nat.simps) (simp add: is_digit_char_of)
  next
    case False
    with 1 show ?thesis by (subst str_nat.simps) (simp add: is_digit_char_of)
  qed
qed

lemma str_nat_nonempty: "str_nat n \<noteq> []"
  by (subst str_nat.simps) simp

lemma is_digit_plain:
  "is_digit c \<Longrightarrow> c \<noteq> CHR ''_'' \<and> c \<noteq> CHR ''-'' \<and> c \<noteq> CHR ''+'' \<and> \<not> is_space c \<and> c \<noteq> CHR 0x0A
     \<and> c \<noteq> CHR '' '' \<and> c \<noteq> CHR 0x27 \<and> c \<noteq> CHR '',''"
  by (auto simp: is_digit_def is_space_def)

lemma digits_ok_all: "list_all is_digit cs \<Longrightarrow> cs \<noteq> [] \<Longrightarrow> digits_ok cs"
  by (induction cs rule: digits_ok.induct) (auto dest: is_digit_plain)

lemma filter_digits: "list_all is_digit cs \<Longrightarrow> filter (\<lambda>c. c \<noteq> CHR ''_'') cs = cs"
  by (induction cs) (auto dest: is_digit_plain)

lemma digits_val_snoc:
  "list_all is_digit cs \<Longrightarrow> is_digit c \<Longrightarrow> digits_val (cs @ [c]) = 10 * digits_val cs + digit_val c"
  using is_digit_plain[of c] by (simp add: digits_val_def filter_digits)

lemma digits_val_str_nat: "digits_val (str_nat n) = n"
proof (induction n rule: str_nat.induct)
  case (1 n)
  show ?case
  proof (cases "n < 10")
    case True
    then show ?thesis
      using is_digit_plain[OF is_digit_char_of[of n]]
      by (subst str_nat.simps) (simp add: digits_val_def digit_val_char_of)
  next
    case False
    then have "digits_val (str_nat (n div 10) @ [char_of (48 + n mod 10)])
                 = 10 * digits_val (str_nat (n div 10)) + digit_val (char_of (48 + n mod 10))"
      by (intro digits_val_snoc str_nat_digits is_digit_char_of) simp
    with False 1 show ?thesis
      by (subst str_nat.simps) (simp add: digit_val_char_of)
  qed
qed

lemma dropWhile_hd: "xs \<noteq> [] \<Longrightarrow> \<not> P (hd xs) \<Longrightarrow> dropWhile P xs = xs"
  by (cases xs) auto

lemma strip_line:
  assumes "s \<noteq> []" "\<not> is_space (hd s)" "\<not> is_space (last s)"
  shows "strip (s @ [CHR 0x0A]) = s"
proof -
  from assms obtain c cs where s: "s = c # cs" by (cases s) auto
  from assms have r: "dropWhile is_space (rev s) = rev s"
    by (intro dropWhile_hd) (simp_all add: hd_rev)
  have "dropWhile is_space (s @ [CHR 0x0A]) = s @ [CHR 0x0A]"
    using assms s by simp
  moreover have "is_space (CHR 0x0A)" by (simp add: is_space_def)
  then have "dropWhile is_space (rev (s @ [CHR 0x0A])) = rev s"
    using assms r by simp
  ultimately show ?thesis by (simp add: strip_def)
qed

lemma str_nat_hd_last: "is_digit (hd (str_nat n)) \<and> is_digit (last (str_nat n))"
  using str_nat_digits[of n] str_nat_nonempty[of n]
  by (cases "str_nat n") (auto simp: list_all_iff)

lemma py_int_str_line: "py_int (py_str_int i @ [CHR 0x0A]) = Some i"
proof (cases "i < 0")
  case True
  let ?d = "str_nat (nat (- i))"
  have "strip ((CHR ''-'' # ?d) @ [CHR 0x0A]) = CHR ''-'' # ?d"
    using str_nat_hd_last[of "nat (- i)"] str_nat_nonempty[of "nat (- i)"]
    by (intro strip_line) (auto simp: is_space_def dest: is_digit_plain)
  then show ?thesis using True
    by (simp add: py_int_def py_str_int_def digits_ok_all str_nat_digits str_nat_nonempty digits_val_str_nat)
next
  case False
  let ?d = "str_nat (nat i)"
  obtain c cs where d: "?d = c # cs" using str_nat_nonempty[of "nat i"] by (cases ?d) auto
  have s: "strip (?d @ [CHR 0x0A]) = ?d"
    using str_nat_hd_last[of "nat i"] str_nat_nonempty[of "nat i"]
    by (intro strip_line) (auto dest: is_digit_plain)
  have c: "c \<noteq> CHR ''-'' \<and> c \<noteq> CHR ''+''"
    using str_nat_hd_last[of "nat i"] d by (auto dest: is_digit_plain)
  have ok: "digits_ok (c # cs)" using digits_ok_all[OF str_nat_digits str_nat_nonempty, of "nat i"] d by simp
  have v: "digits_val (c # cs) = nat i" using digits_val_str_nat[of "nat i"] d by simp
  show ?thesis using False s c ok v d
    by (simp add: py_int_def py_str_int_def)
qed

lemma readline_line: "CHR 0x0A \<notin> set l \<Longrightarrow> readline (l @ CHR 0x0A # rest) = (l @ [CHR 0x0A], rest)"
  by (induction l) auto

lemma str_int_no_newline: "CHR 0x0A \<notin> set (py_str_int i)"
  using str_nat_digits[of "nat i"] str_nat_digits[of "nat (- i)"]
  by (auto simp: py_str_int_def list_all_iff dest: is_digit_plain)


lemma clean_join:
  "filter P (join sep xs) = join (filter P sep) (map (filter P) xs)"
  by (induction sep xs rule: join.induct) simp_all

lemma slice_bracketed: "slice_1_m2 (a # xs @ [b, c]) = xs"
  by (simp add: slice_1_m2_def butlast_append)

lemma split_on_plain: "sep \<notin> set t \<Longrightarrow> split_on sep t = [t]"
  by (induction t) auto

lemma split_on_sep: "sep \<notin> set t \<Longrightarrow> split_on sep (t @ sep # rest) = t # split_on sep rest"
  by (induction t) auto

lemma split_on_join:
  "ts \<noteq> [] \<Longrightarrow> \<forall>t \<in> set ts. sep \<notin> set t \<Longrightarrow> split_on sep (join [sep] ts) = ts"
  by (induction "[sep]" ts rule: join.induct) (simp_all add: split_on_plain split_on_sep)

lemma clean_repr:
  "filter (\<lambda>c. c \<noteq> CHR 0x27) (filter (\<lambda>c. c \<noteq> CHR '' '') (py_repr_label l))
     = (case l of None \<Rightarrow> ''None'' | Some Fire \<Rightarrow> ''Fire'' | Some No_Fire \<Rightarrow> ''NoFire'')"
  by (cases l rule: py_repr_label.cases) simp_all

lemma clean_repr_no_comma:
  "CHR '','' \<notin> set (filter (\<lambda>c. c \<noteq> CHR 0x27) (filter (\<lambda>c. c \<noteq> CHR '' '') (py_repr_label l)))"
  by (cases l rule: py_repr_label.cases) simp_all

lemma parse_labels_clean:
  "parse_labels (map (\<lambda>l. filter (\<lambda>c. c \<noteq> CHR 0x27) (filter (\<lambda>c. c \<noteq> CHR '' '') (py_repr_label l))) ls)
     = (ls, [])"
proof (induction ls)
  case Nil
  show ?case by simp
next
  case (Cons l ls)
  then show ?case by (cases l rule: py_repr_label.cases) (simp_all add: clean_repr)
qed

lemma labels_raw_str:
  "labels_raw (py_str_labels ls @ [CHR 0x0A])
     = split_on (CHR '','')
         (join '','' (map (\<lambda>l. filter (\<lambda>c. c \<noteq> CHR 0x27) (filter (\<lambda>c. c \<noteq> CHR '' '') (py_repr_label l))) ls))"
proof -
  have "filter (\<lambda>c. c \<noteq> CHR 0x27) (filter (\<lambda>c. c \<noteq> CHR '' '') (py_str_labels ls @ [CHR 0x0A]))
          = CHR ''['' # join '','' (map (\<lambda>l. filter (\<lambda>c. c \<noteq> CHR 0x27) (filter (\<lambda>c. c \<noteq> CHR '' '') (py_repr_label l))) ls)
              @ [CHR '']'', CHR 0x0A]"
    by (simp add: py_str_labels_def clean_join comp_def)
  then show ?thesis by (simp add: labels_raw_def slice_bracketed)
qed

lemma parse_saved_labels:
  "fst (parse_labels (labels_raw (py_str_labels ls @ [CHR 0x0A]))) = ls"
proof (cases ls)
  case Nil
  then show ?thesis by (simp add: labels_raw_str)
next
  case (Cons a as)
  then have sp: "split_on (CHR '','')
         (join '','' (map (\<lambda>l. filter (\<lambda>c. c \<noteq> CHR 0x27) (filter (\<lambda>c. c \<noteq> CHR '' '') (py_repr_label l))) ls))
       = map (\<lambda>l. filter (\<lambda>c. c \<noteq> CHR 0x27) (filter (\<lambda>c. c \<noteq> CHR '' '') (py_repr_label l))) ls"
    using clean_repr_no_comma by (intro split_on_join) (simp_all del: set_filter filter_filter)
  show ?thesis by (simp only: labels_raw_str sp parse_labels_clean fst_conv)
qed

lemma set_join: "c \<in> set (join sep xs) \<Longrightarrow> c \<in> set sep \<or> (\<exists>x \<in> set xs. c \<in> set x)"
  by (induction sep xs rule: join.induct) auto

lemma repr_no_newline: "CHR 0x0A \<notin> set (py_repr_label l)"
  by (cases l rule: py_repr_label.cases) simp_all

lemma str_labels_no_newline: "CHR 0x0A \<notin> set (py_str_labels ls)"
  using set_join[of "CHR 0x0A" "'', ''" "map py_repr_label ls"] repr_no_newline
  by (auto simp: py_str_labels_def)

section \<open>Navigation by the arrow keys\<close>

text \<open>
  Claim C3, as the source has it. A step to the right sets the index to
  \<open>(old + 1) mod N\<close>, a step to the left to \<open>(old - 1) mod N\<close>, and each puts exactly two
  tasks on the queue, one of kind \<^verbatim>\<open>rgb\<close> and one of kind \<^verbatim>\<open>ir\<close>, both for the position
  \<open>(old + R + 1) mod N\<close> (right) or \<open>(old - R - 1) mod N\<close> (left). Nothing else changes; no
  task of kind \<^verbatim>\<open>tiff\<close> is put.
\<close>

theorem step_enqueues:
  "step_right e st =
     st\<lparr>index := (index st + 1) mod N e,
        q := q st @ [Load ((index st + BUFF_RADIUS e + 1) mod N e)
                       (rgb_path e ((index st + BUFF_RADIUS e + 1) mod N e)) ''rgb'',
                     Load ((index st + BUFF_RADIUS e + 1) mod N e)
                       (ir_path e ((index st + BUFF_RADIUS e + 1) mod N e)) ''ir'']\<rparr>
   \<and> step_left e st =
     st\<lparr>index := (index st - 1) mod N e,
        q := q st @ [Load ((index st - BUFF_RADIUS e - 1) mod N e)
                       (rgb_path e ((index st - BUFF_RADIUS e - 1) mod N e)) ''rgb'',
                     Load ((index st - BUFF_RADIUS e - 1) mod N e)
                       (ir_path e ((index st - BUFF_RADIUS e - 1) mod N e)) ''ir'']\<rparr>"
proof -
  have r: "((index st + 1) mod N e + BUFF_RADIUS e) mod N e
             = (index st + BUFF_RADIUS e + 1) mod N e"
    by (simp add: mod_simps algebra_simps)
  have l: "((index st - 1) mod N e - BUFF_RADIUS e) mod N e
             = (index st - BUFF_RADIUS e - 1) mod N e"
    by (simp add: mod_simps algebra_simps)
  show ?thesis
    by (simp add: step_right_def step_left_def Let_def r l)
qed

text \<open>
  Claim C3 as stated asks for one task per kind, the scalar kind included. From index 0 of
  twenty images a step to the right puts the two image tasks for position 8 and no
  \<^verbatim>\<open>tiff\<close> task; neither does a step to the left.
\<close>

theorem step_no_scalar_task:
  "q (step_right seq20 ((preload seq20 :: (string, nat) state)\<lparr>q := []\<rparr>))
     = [Load 8 ''In/RGB/Corrected FOV/8.JPG'' ''rgb'', Load 8 ''In/Thermal/JPG/8.JPG'' ''ir'']
   \<and> of_kind ''tiff'' (q (step_right seq20 ((preload seq20 :: (string, nat) state)\<lparr>q := []\<rparr>))) = []
   \<and> of_kind ''tiff'' (q (step_left seq20 ((preload seq20 :: (string, nat) state)\<lparr>q := []\<rparr>))) = []"
  by code_simp

section \<open>Go To with a text that is no integer\<close>



section \<open>Load State\<close>

text \<open>
  Claim C6. When the first line of the state file is an integer other than the number
  of images of the active sequence, Load State shows the error popup and executes
  \<^verbatim>\<open>continue\<close>: the whole state, the index and the label vector in it, is as before, also
  at the end of the loop iteration.
\<close>

theorem restore_mismatch_rejected:
  "readline content = (l1, rest) \<Longrightarrow> py_int l1 = Some n \<Longrightarrow> n \<noteq> N e \<Longrightarrow>
     load_state e (Some content) st = Continued [Different_Number_Of_Files] st
     \<and> tick e (Load_State (Some content)) st = Inr st"
  by (simp add: load_state_def tick_def handle_def)

theorem restore_mismatch_rejected_witness:
  "readline (''19'' @ [CHR 0x0A] @ ''3'' @ [CHR 0x0A] @ ''[None]'' @ [CHR 0x0A])
     = (''19'' @ [CHR 0x0A], ''3'' @ [CHR 0x0A] @ ''[None]'' @ [CHR 0x0A])
   \<and> py_int (''19'' @ [CHR 0x0A]) = Some 19 \<and> 19 \<noteq> N seq20
   \<and> load_state seq20 (Some (''19'' @ [CHR 0x0A] @ ''3'' @ [CHR 0x0A] @ ''[None]'' @ [CHR 0x0A]))
        (preload seq20 :: (string, nat) state)
       = Continued [Different_Number_Of_Files] (preload seq20)"
proof -
  have r: "readline (''19'' @ [CHR 0x0A] @ ''3'' @ [CHR 0x0A] @ ''[None]'' @ [CHR 0x0A])
     = (''19'' @ [CHR 0x0A], ''3'' @ [CHR 0x0A] @ ''[None]'' @ [CHR 0x0A])" by simp
  have i: "py_int (''19'' @ [CHR 0x0A]) = Some 19" by code_simp
  have n: "19 \<noteq> N seq20" by code_simp
  from restore_mismatch_rejected[OF r i n, of "preload seq20 :: (string, nat) state"] r i n
  show ?thesis by simp
qed

text \<open>
  Claim C9. The text that Save State writes for a state, read back by Load State while
  the same sequence is active and the label vector has the same length, is accepted,
  and the label vector and the index it restores are the saved ones, for every label
  vector and every index.
\<close>

theorem save_load_roundtrip:
  assumes "save_state e confirm st = Some txt"
    and "length (labels st0) = length (labels st)"
  shows "\<exists>pops st'. load_state e (Some txt) st0 = Fallthrough pops st'
           \<and> labels st' = labels st \<and> index st' = index st"
proof -
  let ?l1 = "py_str_int (N e)" and ?l2 = "py_str_int (index st)"
    and ?l3 = "py_str_labels (labels st)"
  from assms(1) have saved: "txt = save_state_text e st"
    by (auto simp: save_state_def split: option.splits if_splits)
  have t: "save_state_text e st = ?l1 @ CHR 0x0A # (?l2 @ CHR 0x0A # (?l3 @ CHR 0x0A # []))"
    by (simp add: save_state_text_def)
  have r1: "readline (save_state_text e st)
              = (?l1 @ [CHR 0x0A], ?l2 @ CHR 0x0A # (?l3 @ CHR 0x0A # []))"
    unfolding t by (rule readline_line[OF str_int_no_newline])
  have r2: "readline (?l2 @ CHR 0x0A # (?l3 @ CHR 0x0A # []))
              = (?l2 @ [CHR 0x0A], ?l3 @ CHR 0x0A # [])"
    by (rule readline_line[OF str_int_no_newline])
  have r3: "readline (?l3 @ CHR 0x0A # []) = (?l3 @ [CHR 0x0A], [])"
    by (rule readline_line[OF str_labels_no_newline])
  obtain parsed pops where p: "parse_labels (labels_raw (?l3 @ [CHR 0x0A])) = (parsed, pops)"
    by (cases "parse_labels (labels_raw (?l3 @ [CHR 0x0A]))") auto
  with parse_saved_labels[of "labels st"] have parsed: "parsed = labels st" by simp
  show ?thesis
    using assms(2) by (simp add: saved load_state_def r1 r2 r3 py_int_str_line p parsed)
qed

theorem save_load_roundtrip_witness:
  "save_state seq20 (Some ''Yes'')
       ((preload seq20 :: (string, nat) state)
          \<lparr>index := 5, labels := (replicate 20 None)[0 := Some Fire, 1 := Some No_Fire]\<rparr>)
     = Some (''20'' @ [CHR 0x0A] @ ''5'' @ [CHR 0x0A]
         @ py_str_labels ((replicate 20 None)[0 := Some Fire, 1 := Some No_Fire]) @ [CHR 0x0A])
   \<and> (\<exists>pops st'.
         load_state seq20
           (Some (''20'' @ [CHR 0x0A] @ ''5'' @ [CHR 0x0A]
              @ py_str_labels ((replicate 20 None)[0 := Some Fire, 1 := Some No_Fire]) @ [CHR 0x0A]))
           (preload seq20 :: (string, nat) state) = Fallthrough pops st'
         \<and> labels st' = (replicate 20 None)[0 := Some Fire, 1 := Some No_Fire]
         \<and> index st' = 5)"
proof -
  let ?st = "(preload seq20 :: (string, nat) state)
          \<lparr>index := 5, labels := (replicate 20 None)[0 := Some Fire, 1 := Some No_Fire]\<rparr>"
  let ?txt = "''20'' @ [CHR 0x0A] @ ''5'' @ [CHR 0x0A]
         @ py_str_labels ((replicate 20 None)[0 := Some Fire, 1 := Some No_Fire]) @ [CHR 0x0A]"
  have n: "py_str_int (N seq20) = ''20''" by code_simp
  have f: "py_str_int 5 = ''5''" by code_simp
  have s: "save_state seq20 (Some ''Yes'') ?st = Some ?txt"
    by (simp add: save_state_def save_state_text_def n f)
  have l: "length (labels (preload seq20 :: (string, nat) state)) = length (labels ?st)"
    by (simp add: preload_def seq20_def)
  from save_load_roundtrip[OF s l] s show ?thesis by simp
qed

section \<open>The window after a reconciliation pass\<close>

text \<open>
  Claim C1, as the source has it. After the reconciliation block, whatever the result
  stacks held, every non-empty slot of the visual and of the thermal vector is within
  circular distance \<open>R\<close> of the index, and every slot farther away is empty. The vector
  of scalar statistics has no eviction scan: with no pending results the block returns
  and leaves that vector, and the index, as they were.
\<close>

theorem reconcile_window:
  "(\<forall>st'. reconcile e st = Inr st' \<longrightarrow>
       index st' = index st
     \<and> (\<forall>s < length (loaded_rgb_images st').
           (loaded_rgb_images st' ! s \<noteq> None
              \<longrightarrow> circ_dist (N e) (index st) (int s) \<le> BUFF_RADIUS e)
         \<and> (circ_dist (N e) (index st) (int s) > BUFF_RADIUS e
              \<longrightarrow> loaded_rgb_images st' ! s = None))
     \<and> (\<forall>s < length (loaded_ir_images st').
           (loaded_ir_images st' ! s \<noteq> None
              \<longrightarrow> circ_dist (N e) (index st) (int s) \<le> BUFF_RADIUS e)
         \<and> (circ_dist (N e) (index st) (int s) > BUFF_RADIUS e
              \<longrightarrow> loaded_ir_images st' ! s = None)))
   \<and> (b_rgb st = [] \<and> b_ir st = [] \<and> b_tiff st = [] \<longrightarrow>
        (\<exists>st'. reconcile e st = Inr st'
           \<and> loaded_tiff_vals st' = loaded_tiff_vals st
           \<and> loaded_rgb_images st'
                = evict (N e) (BUFF_RADIUS e) (index st) (loaded_rgb_images st)
           \<and> loaded_ir_images st'
                = evict (N e) (BUFF_RADIUS e) (index st) (loaded_ir_images st)))"
proof -
  have A: "index st' = index st
     \<and> (\<forall>s < length (loaded_rgb_images st').
           (loaded_rgb_images st' ! s \<noteq> None
              \<longrightarrow> circ_dist (N e) (index st) (int s) \<le> BUFF_RADIUS e)
         \<and> (circ_dist (N e) (index st) (int s) > BUFF_RADIUS e
              \<longrightarrow> loaded_rgb_images st' ! s = None))
     \<and> (\<forall>s < length (loaded_ir_images st').
           (loaded_ir_images st' ! s \<noteq> None
              \<longrightarrow> circ_dist (N e) (index st) (int s) \<le> BUFF_RADIUS e)
         \<and> (circ_dist (N e) (index st) (int s) > BUFF_RADIUS e
              \<longrightarrow> loaded_ir_images st' ! s = None))"
    if r: "reconcile e st = Inr st'" for st'
  proof -
    from r obtain b1 l1 b2 l2 b3 l3 where
      st': "st' = st\<lparr>b_rgb := b1, b_ir := b2, b_tiff := b3,
                  loaded_rgb_images := evict (N e) (BUFF_RADIUS e) (index st) l1,
                  loaded_ir_images := evict (N e) (BUFF_RADIUS e) (index st) l2,
                  loaded_tiff_vals := l3\<rparr>"
      by (auto simp: reconcile_def split: sum.splits)
    show ?thesis by (simp add: st' evict_length evict_nth)
  qed
  have B: "\<exists>st'. reconcile e st = Inr st'
           \<and> loaded_tiff_vals st' = loaded_tiff_vals st
           \<and> loaded_rgb_images st'
                = evict (N e) (BUFF_RADIUS e) (index st) (loaded_rgb_images st)
           \<and> loaded_ir_images st'
                = evict (N e) (BUFF_RADIUS e) (index st) (loaded_ir_images st)"
    if "b_rgb st = [] \<and> b_ir st = [] \<and> b_tiff st = []"
    using that by (simp add: reconcile_def drain_nil)
  from A B show ?thesis by blast
qed

text \<open>The theorem at a state of the program: after the first three idle iterations
  nothing is pending, and a step to the right moves the window.\<close>

theorem reconcile_window_witness:
  "case main seq20 echo echo [Ev Timeout, Ev Timeout, Ev Timeout] of
     Inl x \<Rightarrow> False
   | Inr st \<Rightarrow>
       b_rgb st = [] \<and> b_ir st = [] \<and> b_tiff st = []
       \<and> (case reconcile seq20 (step_right seq20 st) of
             Inl x \<Rightarrow> False
           | Inr st' \<Rightarrow>
               index st' = 1 \<and> 13 < length (loaded_rgb_images st')
               \<and> circ_dist (N seq20) 1 13 > BUFF_RADIUS seq20
               \<and> loaded_rgb_images st ! 13 \<noteq> None
               \<and> loaded_rgb_images st' ! 13 = None
               \<and> loaded_rgb_images st' ! 0 \<noteq> None
               \<and> circ_dist (N seq20) 1 0 \<le> BUFF_RADIUS seq20)"
proof -
  have run: "case main seq20 echo echo [Ev Timeout, Ev Timeout, Ev Timeout] of
     Inl x \<Rightarrow> False
   | Inr st \<Rightarrow>
       b_rgb st = [] \<and> b_ir st = [] \<and> b_tiff st = []
       \<and> (case reconcile seq20 (step_right seq20 st) of
             Inl x \<Rightarrow> False
           | Inr st' \<Rightarrow>
               13 < length (loaded_rgb_images st')
               \<and> loaded_rgb_images st ! 13 \<noteq> None
               \<and> loaded_rgb_images st' ! 0 \<noteq> None
               \<and> index (step_right seq20 st) = 1)"
    by code_simp
  have d: "circ_dist (N seq20) 1 13 > BUFF_RADIUS seq20"
          "circ_dist (N seq20) 1 0 \<le> BUFF_RADIUS seq20"
    by code_simp+
  show ?thesis
  proof (cases "main seq20 echo echo [Ev Timeout, Ev Timeout, Ev Timeout] :: exn + (nat, nat) state")
    case (Inl x)
    with run show ?thesis by simp
  next
    case (Inr st)
    show ?thesis
    proof (cases "reconcile seq20 (step_right seq20 st)")
      case (Inl x)
      with run Inr show ?thesis by simp
    next
      case r: (Inr st')
      from run Inr r have f: "b_rgb st = [] \<and> b_ir st = [] \<and> b_tiff st = []"
        "13 < length (loaded_rgb_images st')" "loaded_rgb_images st ! 13 \<noteq> None"
        "loaded_rgb_images st' ! 0 \<noteq> None" "index (step_right seq20 st) = 1"
        by simp_all
      from reconcile_window[of seq20 "step_right seq20 st"] r f d
      have "index st' = 1" "loaded_rgb_images st' ! 13 = None"
        by auto
      with Inr r f d show ?thesis by simp
    qed
  qed
qed

text \<open>
  Claim C1 as stated covers the scalar statistics too. Run: Go To 11, the worker serves
  the queue, four idle iterations drain the stacks, a step to the right, the worker, one
  more iteration. Nothing is pending then, the index is 11, and a further
  reconciliation pass leaves the statistics of position 3 in place, at circular
  distance 8.
\<close>

theorem reconcile_keeps_far_stats:
  "case main seq20 echo echo
          [Ev (Goto (Some ''11'')), Serve, Ev Timeout, Ev Timeout, Ev Timeout, Ev Timeout,
           Ev Right, Serve, Ev Timeout] of
     Inl x \<Rightarrow> False
   | Inr st \<Rightarrow>
       b_rgb st = [] \<and> b_ir st = [] \<and> b_tiff st = [] \<and> q st = [] \<and> index st = 11
       \<and> (case reconcile seq20 st of
             Inl x \<Rightarrow> False
           | Inr st' \<Rightarrow>
               loaded_tiff_vals st' ! 3 \<noteq> None
               \<and> circ_dist (N seq20) (index st') 3 > BUFF_RADIUS seq20
               \<and> circ_dist (N seq20) (index st') 3 = 8)"
  by code_simp

section \<open>Go To\<close>




section \<open>The scenario of twenty images\<close>

text \<open>
  Claim C7, as the source runs it (\<open>N = 20\<close>, \<open>R = 7\<close>, index 0). The preload puts tasks
  for the fifteen positions 13 to 19 and 0 to 7, for the visual and the thermal kind. Once
  these are decoded and drained both vectors hold exactly these positions. A step to the
  right sets the index to 1 and puts one visual and one thermal task for position 8;
  the reconciliation of that iteration empties slot 13; after the worker has served
  the two tasks the next reconciliation fills slot 8.
\<close>

theorem scenario_twenty:
  "map task_index (of_kind ''rgb'' (q (preload seq20 :: (nat, nat) state)))
     = map Some [13, 14, 15, 16, 17, 18, 19, 0, 1, 2, 3, 4, 5, 6, 7]
   \<and> map task_index (of_kind ''ir'' (q (preload seq20 :: (nat, nat) state)))
       = map Some [13, 14, 15, 16, 17, 18, 19, 0, 1, 2, 3, 4, 5, 6, 7]
   \<and> (case main seq20 echo echo [Ev Timeout, Ev Timeout, Ev Timeout] of
         Inl x \<Rightarrow> False
       | Inr st \<Rightarrow>
           index st = 0 \<and> q st = [] \<and> b_rgb st = [] \<and> b_ir st = []
           \<and> populated (loaded_rgb_images st)
               = [0, 1, 2, 3, 4, 5, 6, 7, 13, 14, 15, 16, 17, 18, 19]
           \<and> populated (loaded_ir_images st)
               = [0, 1, 2, 3, 4, 5, 6, 7, 13, 14, 15, 16, 17, 18, 19]
           \<and> (case tick seq20 Right st of
                 Inl x \<Rightarrow> False
               | Inr st1 \<Rightarrow>
                   index st1 = 1
                   \<and> q st1 = [Load 8 (rgb_path seq20 8) ''rgb'', Load 8 (ir_path seq20 8) ''ir'']
                   \<and> populated (loaded_rgb_images st1)
                       = [0, 1, 2, 3, 4, 5, 6, 7, 14, 15, 16, 17, 18, 19]
                   \<and> populated (loaded_ir_images st1)
                       = [0, 1, 2, 3, 4, 5, 6, 7, 14, 15, 16, 17, 18, 19]
                   \<and> (case tick seq20 Timeout (serve echo echo st1) of
                         Inl x \<Rightarrow> False
                       | Inr st2 \<Rightarrow>
                           index st2 = 1 \<and> q st2 = []
                           \<and> populated (loaded_rgb_images st2)
                               = [0, 1, 2, 3, 4, 5, 6, 7, 8, 14, 15, 16, 17, 18, 19]
                           \<and> populated (loaded_ir_images st2)
                               = [0, 1, 2, 3, 4, 5, 6, 7, 8, 14, 15, 16, 17, 18, 19])))"
  by code_simp

text \<open>
  Claim C7 as stated: fourteen slots per kind, a task for position 9, slot 12 evicted.
  The preload puts fifteen tasks of each image kind and none of kind \<^verbatim>\<open>tiff\<close>; the step
  from index 0 targets position 8 and puts no task for position 9; slot 12 is empty
  before the step, and the slot that the step's reconciliation empties is 13.
\<close>

theorem scenario_twenty_counts:
  "length (of_kind ''rgb'' (q (preload seq20 :: (nat, nat) state))) = 15
   \<and> length (of_kind ''rgb'' (q (preload seq20 :: (nat, nat) state))) \<noteq> 14
   \<and> of_kind ''tiff'' (q (preload seq20 :: (nat, nat) state)) = []
   \<and> (case main seq20 echo echo [Ev Timeout, Ev Timeout, Ev Timeout] of
         Inl x \<Rightarrow> False
       | Inr st \<Rightarrow>
           length (populated (loaded_rgb_images st)) = 15
           \<and> loaded_rgb_images st ! 12 = None
           \<and> loaded_rgb_images st ! 13 \<noteq> None
           \<and> map task_index (q (step_right seq20 st)) = [Some 8, Some 8]
           \<and> filter (\<lambda>t. task_index t = Some 9) (q (step_right seq20 st)) = []
           \<and> (case tick seq20 Right st of
                 Inl x \<Rightarrow> False
               | Inr st1 \<Rightarrow> loaded_rgb_images st1 ! 13 = None))"
  by code_simp

section \<open>Load State with a label vector of the wrong length\<close>

text \<open>
  Whenever Load State ends in a report and \<^verbatim>\<open>continue\<close>, the labels, the vectors, the
  queue and the stacks are as before; the index is the only field that can differ.
\<close>

theorem load_state_report_frame:
  "load_state e f st = Continued pops st' \<Longrightarrow> st' = st\<lparr>index := index st'\<rparr>"
  by (auto simp: load_state_def split: option.splits prod.splits if_splits)

theorem load_state_report_frame_witness:
  "load_state seq20
       (Some (''20'' @ [CHR 0x0A] @ ''2'' @ [CHR 0x0A] @ ''[None]'' @ [CHR 0x0A]))
       (preload seq20 :: (nat, nat) state)
     = Continued [Length_Mismatch] ((preload seq20)\<lparr>index := 2\<rparr>)
   \<and> (preload seq20 :: (nat, nat) state)\<lparr>index := 2\<rparr>
       = (preload seq20)\<lparr>index := index ((preload seq20 :: (nat, nat) state)\<lparr>index := 2\<rparr>)\<rparr>"
proof -
  have r: "load_state seq20
       (Some (''20'' @ [CHR 0x0A] @ ''2'' @ [CHR 0x0A] @ ''[None]'' @ [CHR 0x0A]))
       (preload seq20 :: (nat, nat) state)
     = Continued [Length_Mismatch] ((preload seq20)\<lparr>index := 2\<rparr>)"
    by code_simp
  from load_state_report_frame[OF r] r show ?thesis by simp
qed

text \<open>
  Claim C4 at a state file that names the right number of images, index 2, and a label
  list of one entry. The handler reports the length mismatch and continues, and the
  index is already 2: it is assigned before the labels are read. In the second file a
  twenty-first entry is unknown: it is reported and skipped, and the state is loaded.
\<close>

theorem load_state_short_labels:
  "load_state seq20
       (Some (''20'' @ [CHR 0x0A] @ ''2'' @ [CHR 0x0A] @ ''['' @ [CHR 0x27] @ ''Fire''
                @ [CHR 0x27] @ '']'' @ [CHR 0x0A]))
       (preload seq20 :: (nat, nat) state)
     = Continued [Length_Mismatch] ((preload seq20)\<lparr>index := 2\<rparr>)
   \<and> index (preload seq20 :: (nat, nat) state) = 0
   \<and> tick seq20
       (Load_State (Some (''20'' @ [CHR 0x0A] @ ''2'' @ [CHR 0x0A] @ ''['' @ [CHR 0x27]
                @ ''Fire'' @ [CHR 0x27] @ '']'' @ [CHR 0x0A])))
       (preload seq20 :: (nat, nat) state)
     = Inr ((preload seq20)\<lparr>index := 2\<rparr>)
   \<and> (case load_state seq20
             (Some (''20'' @ [CHR 0x0A] @ ''4'' @ [CHR 0x0A]
                @ butlast (py_str_labels (replicate 20 (Some Fire))) @ '', what]'' @ [CHR 0x0A]))
             (preload seq20 :: (nat, nat) state) of
         Fallthrough pops st' \<Rightarrow>
           pops = [Unknown_Entry, Loaded_State] \<and> index st' = 4
           \<and> labels st' = replicate 20 (Some Fire)
       | _ \<Rightarrow> False)"
  by code_simp

section \<open>The workers\<close>

subsection \<open>Steps of a worker and of the control thread\<close>

lemma filter_update_count:
  "w < length ws \<Longrightarrow>
   length (filter P (ws[w := v])) + (if P (ws ! w) then 1 else 0)
     = length (filter P ws) + (if P v then 1 else 0)"
proof (induction ws arbitrary: w)
  case Nil
  then show ?case by simp
next
  case (Cons a ws)
  then show ?case by (cases w) auto
qed

lemma sum_list_update_add:
  fixes f :: "'a \<Rightarrow> 'b::comm_monoid_add"
  shows "w < length ws \<Longrightarrow>
   sum_list (map f (ws[w := v])) + f (ws ! w) = sum_list (map f ws) + f v"
proof (induction ws arbitrary: w)
  case Nil
  then show ?case by simp
next
  case (Cons a ws)
  show ?case
  proof (cases w)
    case 0
    then show ?thesis by (simp add: ac_simps)
  next
    case (Suc n)
    with Cons.prems have "n < length ws" by simp
    from Cons.IH[OF this] Suc show ?thesis by (simp add: ac_simps)
  qed
qed

lemma img_loader_step_cases:
  assumes "img_loader_step li gt w (ws, st) = Some (ws', st')"
  obtains
    (exit) ts where "w < length ws" "ws ! w = Waiting" "q st = Sentinel # ts"
      "ws' = ws[w := Exited]" "st' = st\<lparr>q := ts\<rparr>"
  | (take) i p k ts where "w < length ws" "ws ! w = Waiting" "q st = Load i p k # ts"
      "ws' = ws[w := Working i p k]" "st' = st\<lparr>q := ts\<rparr>"
  | (crash) i p k x where "w < length ws" "ws ! w = Working i p k"
      "(k = ''rgb'' \<or> k = ''ir'') \<and> li p = Inl x \<or> k = ''tiff'' \<and> gt p = Inl x"
      "ws' = ws[w := Crashed x]" "st' = st"
  | (rgb) i p img where "w < length ws" "ws ! w = Working i p ''rgb''" "li p = Inr img"
      "ws' = ws[w := Waiting]" "st' = st\<lparr>b_rgb := b_rgb st @ [(i, img)]\<rparr>"
  | (ir) i p img where "w < length ws" "ws ! w = Working i p ''ir''" "li p = Inr img"
      "ws' = ws[w := Waiting]" "st' = st\<lparr>b_ir := b_ir st @ [(i, img)]\<rparr>"
  | (tiff) i p v where "w < length ws" "ws ! w = Working i p ''tiff''" "gt p = Inr v"
      "ws' = ws[w := Waiting]" "st' = st\<lparr>b_tiff := b_tiff st @ [(i, v)]\<rparr>"
  | (other) i p k where "w < length ws" "ws ! w = Working i p k"
      "k \<noteq> ''rgb''" "k \<noteq> ''ir''" "k \<noteq> ''tiff''" "ws' = ws[w := Waiting]" "st' = st"
proof -
  from assms have w: "w < length ws"
    by (auto simp: img_loader_step_def split: if_splits)
  show thesis
  proof (cases "ws ! w")
    case Waiting
    with assms w exit take show ?thesis
      by (auto simp: img_loader_step_def split: list.splits task.splits)
  next
    case (Working i p k)
    with assms w crash rgb ir tiff other show ?thesis
      by (simp add: img_loader_step_def split: if_splits sum.splits)
  next
    case Exited
    with assms w show ?thesis by (simp add: img_loader_step_def)
  next
    case (Crashed x)
    with assms w show ?thesis by (simp add: img_loader_step_def)
  qed
qed

lemma stop_workers_step_cases:
  assumes "stop_workers_step (pc, ws, st) = Some (pc', ws', st')"
  obtains
    (put) n where "pc = Putting (Suc n)" "pc' = Putting n" "ws' = ws"
      "st' = st\<lparr>q := q st @ [Sentinel]\<rparr>"
  | (wait) "pc = Putting 0" "pc' = Joining 0" "ws' = ws" "st' = st"
  | (joined) j where "pc = Joining j" "j < length ws" "ended (ws ! j)" "pc' = Joining (Suc j)"
      "ws' = ws" "st' = st"
  | (return) j where "pc = Joining j" "\<not> j < length ws" "pc' = Returned" "ws' = ws" "st' = st"
  using assms
  by (auto simp: stop_workers_step_def split: stop_pc.splits nat.splits if_splits)

lemma busy_release:
  "w < length ws \<Longrightarrow> holding (ws ! w) \<noteq> [] \<Longrightarrow> holding v = [] \<Longrightarrow>
   Suc (length (filter (\<lambda>s. holding s \<noteq> []) (ws[w := v]))) = length (filter (\<lambda>s. holding s \<noteq> []) ws)"
  using filter_update_count[of w ws "\<lambda>s. holding s \<noteq> []" v] by simp

lemma busy_take:
  "w < length ws \<Longrightarrow> holding (ws ! w) = [] \<Longrightarrow>
   length (filter (\<lambda>s. holding s \<noteq> []) (ws[w := v])) \<le> Suc (length (filter (\<lambda>s. holding s \<noteq> []) ws))"
  using filter_update_count[of w ws "\<lambda>s. holding s \<noteq> []" v] by (simp split: if_splits)

lemma effort_worker:
  assumes "img_loader_step li gt w (ws, st) = Some (ws', st')"
  shows "effort (pc, ws', st') < effort (pc, ws, st)"
  using assms
proof (cases rule: img_loader_step_cases)
  case (exit ts)
  with busy_take[of w ws Exited] show ?thesis by (simp add: effort_def holding_def split: stop_pc.splits)
next
  case (take i p k ts)
  with busy_take[of w ws "Working i p k"] show ?thesis by (simp add: effort_def holding_def split: stop_pc.splits)
next
  case (crash i p k x)
  with busy_release[of w ws "Crashed x"] show ?thesis by (simp add: effort_def holding_def split: stop_pc.splits)
next
  case (rgb i p img)
  with busy_release[of w ws Waiting] show ?thesis by (simp add: effort_def holding_def split: stop_pc.splits)
next
  case (ir i p img)
  with busy_release[of w ws Waiting] show ?thesis by (simp add: effort_def holding_def split: stop_pc.splits)
next
  case (tiff i p v)
  with busy_release[of w ws Waiting] show ?thesis by (simp add: effort_def holding_def split: stop_pc.splits)
next
  case (other i p k)
  with busy_release[of w ws Waiting] show ?thesis by (simp add: effort_def holding_def split: stop_pc.splits)
qed

lemma effort_control:
  assumes "stop_workers_step c = Some c'"
  shows "effort c' < effort c"
  using assms
  by (cases c) (auto simp: stop_workers_step_def effort_def split: stop_pc.splits nat.splits if_splits)

lemma effort_step:
  assumes "sys_step li gt a c = Some c'"
  shows "effort c' < effort c"
proof (cases a)
  case Control
  with assms show ?thesis by (simp add: sys_step_def effort_control)
next
  case (Worker w)
  obtain pc ws st where c: "c = (pc, ws, st)" by (cases c) auto
  with assms Worker obtain ws' st' where
    "img_loader_step li gt w (ws, st) = Some (ws', st')" "c' = (pc, ws', st')"
    by (auto simp: sys_step_def split: option.splits)
  with c show ?thesis by (simp add: effort_worker)
qed


lemma head_sentinel:
  assumes "tasks @ replicate m Sentinel = Sentinel # ts" "list_all (decodes li gt) tasks"
  shows "tasks = [] \<and> (\<exists>m'. m = Suc m' \<and> ts = replicate m' Sentinel)"
proof (cases tasks)
  case Nil
  with assms(1) show ?thesis by (cases m) auto
next
  case (Cons t tasks')
  with assms show ?thesis by (simp add: decodes_def)
qed

lemma head_load:
  assumes "tasks @ replicate m Sentinel = Load i p k # ts"
  shows "\<exists>tasks'. tasks = Load i p k # tasks' \<and> ts = tasks' @ replicate m Sentinel"
proof (cases tasks)
  case Nil
  with assms show ?thesis by (cases m) auto
next
  case (Cons t tasks')
  with assms show ?thesis by simp
qed

lemma list_all_update: "list_all P ws \<Longrightarrow> P v \<Longrightarrow> list_all P (ws[w := v])"
  using set_update_subset_insert[of ws w v] by (auto simp: list_all_iff)

lemma exited_update:
  "w < length ws \<Longrightarrow>
   exited (ws[w := v]) + (if ws ! w = Exited then 1 else 0) = exited ws + (if v = Exited then 1 else 0)"
  unfolding exited_def by (rule filter_update_count)

lemma member_update: "x \<in> set (ws[w := v]) \<Longrightarrow> x \<noteq> v \<Longrightarrow> x \<in> set ws"
  using set_update_subset_insert[of ws w v] by auto

lemma stop_inv_worker:
  assumes inv: "stop_inv li gt (pc, ws, st)"
    and step: "img_loader_step li gt w (ws, st) = Some (ws', st')"
  shows "stop_inv li gt (pc, ws', st')"
proof -
  from inv obtain tasks m where
    qu: "q st = tasks @ replicate m Sentinel"
    and dec: "list_all (decodes li gt) tasks"
    and good: "list_all (\<lambda>s. live li gt s \<or> s = Exited) ws"
    and ex: "Exited \<in> set ws \<longrightarrow> tasks = []"
    and cnt: "m + to_put pc + exited ws = length ws"
    and pcs: "joined pc ws"
    by (auto simp: stop_inv_def)
  have keep: "joined pc (ws[w := v])" if "ws ! w \<noteq> Exited \<or> v = Exited" "w < length ws" for v
  proof (cases pc)
    case (Putting n)
    then show ?thesis by simp
  next
    case (Joining j)
    show ?thesis
    proof (cases "v = Exited")
      case True
      with pcs Joining show ?thesis by (simp add: take_update_swap list_all_update)
    next
      case False
      with that have ne: "ws ! w \<noteq> Exited" by simp
      have "j \<le> w"
      proof (rule ccontr)
        assume "\<not> j \<le> w"
        then have "w < j" by simp
        with pcs Joining that(2) have "take j ws ! w = Exited"
          by (auto simp: list_all_length)
        with \<open>w < j\<close> ne show False by simp
      qed
      with pcs Joining show ?thesis by simp
    qed
  next
    case Returned
    with pcs that show ?thesis by (auto simp: list_all_length nth_list_update)
  qed
  from step show ?thesis
  proof (cases rule: img_loader_step_cases)
    case (exit ts)
    from head_sentinel[OF _ dec, of m ts] qu exit obtain m' where
      t: "tasks = []" "m = Suc m'" "ts = replicate m' Sentinel" by auto
    from exited_update[of w ws Exited] exit have e: "exited ws' = Suc (exited ws)" by simp
    show ?thesis
      unfolding stop_inv_def
      apply (simp only: prod.case)
      apply (rule exI[of _ "[]"], rule exI[of _ m'])
      using exit t e cnt good keep[of Exited] by (simp add: list_all_update)
  next
    case (take i p k ts)
    from head_load[of tasks m i p k ts] qu take obtain tasks' where
      t: "tasks = Load i p k # tasks'" "ts = tasks' @ replicate m Sentinel" by auto
    from exited_update[of w ws "Working i p k"] take have e: "exited ws' = exited ws" by simp
    from t ex have noex: "Exited \<notin> set ws" by auto
    then have noex': "Exited \<notin> set ws'" using take member_update[of Exited ws w "Working i p k"] by auto
    from dec t have l: "live li gt (Working i p k)" by (simp add: live_def)
    show ?thesis
      unfolding stop_inv_def
      apply (simp only: prod.case)
      apply (rule exI[of _ tasks'], rule exI[of _ m])
      using take t e cnt good keep[of "Working i p k"] dec noex' l by (simp add: list_all_update)
  next
    case (crash i p k x)
    from good crash(1) have "live li gt (ws ! w) \<or> ws ! w = Exited"
      by (simp add: list_all_length)
    with crash have "live li gt (Working i p k)" by simp
    with crash show ?thesis by (auto simp: live_def decodes_def ok_def split: if_splits)
  next
    case (rgb i p img)
    from exited_update[of w ws Waiting] rgb have e: "exited ws' = exited ws" by simp
    have m: "Exited \<in> set ws' \<Longrightarrow> Exited \<in> set ws"
      using rgb member_update[of Exited ws w Waiting] by auto
    show ?thesis
      unfolding stop_inv_def
      apply (simp only: prod.case)
      apply (rule exI[of _ tasks], rule exI[of _ m])
      using rgb qu e cnt good keep[of Waiting] dec ex m by (auto simp: list_all_update live_def)
  next
    case (ir i p img)
    from exited_update[of w ws Waiting] ir have e: "exited ws' = exited ws" by simp
    have m: "Exited \<in> set ws' \<Longrightarrow> Exited \<in> set ws"
      using ir member_update[of Exited ws w Waiting] by auto
    show ?thesis
      unfolding stop_inv_def
      apply (simp only: prod.case)
      apply (rule exI[of _ tasks], rule exI[of _ m])
      using ir qu e cnt good keep[of Waiting] dec ex m by (auto simp: list_all_update live_def)
  next
    case (tiff i p v)
    from exited_update[of w ws Waiting] tiff have e: "exited ws' = exited ws" by simp
    have m: "Exited \<in> set ws' \<Longrightarrow> Exited \<in> set ws"
      using tiff member_update[of Exited ws w Waiting] by auto
    show ?thesis
      unfolding stop_inv_def
      apply (simp only: prod.case)
      apply (rule exI[of _ tasks], rule exI[of _ m])
      using tiff qu e cnt good keep[of Waiting] dec ex m by (auto simp: list_all_update live_def)
  next
    case (other i p k)
    from exited_update[of w ws Waiting] other have e: "exited ws' = exited ws" by simp
    have m: "Exited \<in> set ws' \<Longrightarrow> Exited \<in> set ws"
      using other member_update[of Exited ws w Waiting] by auto
    show ?thesis
      unfolding stop_inv_def
      apply (simp only: prod.case)
      apply (rule exI[of _ tasks], rule exI[of _ m])
      using other qu e cnt good keep[of Waiting] dec ex m by (auto simp: list_all_update live_def)
  qed
qed


lemma stop_inv_control:
  assumes inv: "stop_inv li gt (pc, ws, st)"
    and step: "stop_workers_step (pc, ws, st) = Some (pc', ws', st')"
  shows "stop_inv li gt (pc', ws', st')"
  using step
proof (cases rule: stop_workers_step_cases)
  case (put n)
  from inv obtain tasks m where
    "q st = tasks @ replicate m Sentinel" "list_all (decodes li gt) tasks"
    "list_all (\<lambda>s. live li gt s \<or> s = Exited) ws" "Exited \<in> set ws \<longrightarrow> tasks = []"
    "m + to_put pc + exited ws = length ws"
    by (auto simp: stop_inv_def)
  with put show ?thesis
    unfolding stop_inv_def
    apply (simp only: prod.case)
    apply (rule exI[of _ tasks], rule exI[of _ "Suc m"])
    by (simp add: to_put_def replicate_append_same)
next
  case wait
  with inv show ?thesis by (auto simp: stop_inv_def to_put_def)
next
  case (joined j)
  from inv joined have "live li gt (ws ! j) \<or> ws ! j = Exited"
    by (auto simp: stop_inv_def list_all_length)
  with joined have "ws ! j = Exited"
    by (auto simp: ended_def live_def split: wstate.splits)
  with inv joined show ?thesis
    by (auto simp: stop_inv_def to_put_def take_Suc_conv_app_nth)
next
  case (return j)
  with inv show ?thesis by (auto simp: stop_inv_def to_put_def)
qed

lemma stop_inv_step:
  assumes "stop_inv li gt c" "sys_step li gt a c = Some c'"
  shows "stop_inv li gt c'"
proof -
  obtain pc ws st where c: "c = (pc, ws, st)" by (cases c) auto
  obtain pc' ws' st' where c': "c' = (pc', ws', st')" by (cases c') auto
  show ?thesis
  proof (cases a)
    case Control
    with assms c c' show ?thesis by (auto simp: sys_step_def intro: stop_inv_control)
  next
    case (Worker w)
    with assms c c' have "img_loader_step li gt w (ws, st) = Some (ws', st')" "pc' = pc"
      by (auto simp: sys_step_def split: option.splits)
    with assms c c' show ?thesis by (auto intro: stop_inv_worker)
  qed
qed

lemma run_induct:
  assumes "P c" "\<And>a c c'. P c \<Longrightarrow> sys_step li gt a c = Some c' \<Longrightarrow> P c'"
  shows "P (run li gt sched c)"
  using assms(1)
proof (induction sched arbitrary: c)
  case Nil
  then show ?case by simp
next
  case (Cons a sched)
  show ?case
  proof (cases "sys_step li gt a c")
    case None
    with Cons show ?thesis by simp
  next
    case (Some c')
    from assms(2)[OF Cons.prems Some] have "P c'" .
    from Cons.IH[OF this] Some show ?thesis by simp
  qed
qed

lemma stop_inv_run: "stop_inv li gt c \<Longrightarrow> stop_inv li gt (run li gt sched c)"
  by (rule run_induct) (auto intro: stop_inv_step)

lemma owed_update:
  "w < length ws \<Longrightarrow>
   owed kind dec (ws[w := v]) qu + sum_list (map (out_of kind dec) (holding (ws ! w)))
     = owed kind dec ws qu + sum_list (map (out_of kind dec) (holding v))"
  using sum_list_update_add[of w ws "\<lambda>s. sum_list (map (out_of kind dec) (holding s))" v]
  by (simp add: owed_def ac_simps)

lemma owed_cons: "owed kind dec ws (t # qu) = out_of kind dec t + owed kind dec ws qu"
  by (simp add: owed_def ac_simps)

lemma owed_snoc: "owed kind dec ws (qu @ [t]) = out_of kind dec t + owed kind dec ws qu"
  by (simp add: owed_def ac_simps)

lemma owed_step:
  assumes "img_loader_step li gt w (ws, st) = Some (ws', st')"
  shows "owed kind dec ws (q st)
           = owed kind dec ws' (q st') + sum_list (map (out_of kind dec) (holding (ws ! w)))"
  using assms
proof (cases rule: img_loader_step_cases)
  case (exit ts)
  with owed_update[of w ws kind dec Exited ts] show ?thesis
    by (simp add: holding_def owed_cons out_of_def)
next
  case (take i p k ts)
  with owed_update[of w ws kind dec "Working i p k" ts] show ?thesis
    by (simp add: holding_def owed_cons ac_simps)
next
  case (crash i p k x)
  with owed_update[of w ws kind dec "Crashed x" "q st"] show ?thesis
    by (simp add: holding_def)
next
  case (rgb i p img)
  with owed_update[of w ws kind dec Waiting "q st"] show ?thesis
    by (simp add: holding_def)
next
  case (ir i p img)
  with owed_update[of w ws kind dec Waiting "q st"] show ?thesis
    by (simp add: holding_def)
next
  case (tiff i p v)
  with owed_update[of w ws kind dec Waiting "q st"] show ?thesis
    by (simp add: holding_def)
next
  case (other i p k)
  with owed_update[of w ws kind dec Waiting "q st"] show ?thesis
    by (simp add: holding_def)
qed

lemma conserve_worker:
  assumes "img_loader_step li gt w (ws, st) = Some (ws', st')"
  shows "mset (b_rgb st') + owed ''rgb'' li ws' (q st') = mset (b_rgb st) + owed ''rgb'' li ws (q st)
    \<and> mset (b_ir st') + owed ''ir'' li ws' (q st') = mset (b_ir st) + owed ''ir'' li ws (q st)
    \<and> mset (b_tiff st') + owed ''tiff'' gt ws' (q st') = mset (b_tiff st) + owed ''tiff'' gt ws (q st)"
proof -
  note o = owed_step[OF assms, of "''rgb''" li] owed_step[OF assms, of "''ir''" li]
    owed_step[OF assms, of "''tiff''" gt]
  from assms show ?thesis
  proof (cases rule: img_loader_step_cases)
    case (exit ts)
    with o show ?thesis by (simp add: holding_def)
  next
    case (take i p k ts)
    with o show ?thesis by (simp add: holding_def)
  next
    case (crash i p k x)
    with o show ?thesis by (auto simp: holding_def out_of_def)
  next
    case (rgb i p img)
    with o show ?thesis by (simp add: holding_def out_of_def)
  next
    case (ir i p img)
    with o show ?thesis by (simp add: holding_def out_of_def)
  next
    case (tiff i p v)
    with o show ?thesis by (simp add: holding_def out_of_def)
  next
    case (other i p k)
    with o show ?thesis by (simp add: holding_def out_of_def)
  qed
qed

lemma conserve_step:
  assumes "sys_step li gt a (pc, ws, st) = Some (pc', ws', st')"
  shows "mset (b_rgb st') + owed ''rgb'' li ws' (q st') = mset (b_rgb st) + owed ''rgb'' li ws (q st)
    \<and> mset (b_ir st') + owed ''ir'' li ws' (q st') = mset (b_ir st) + owed ''ir'' li ws (q st)
    \<and> mset (b_tiff st') + owed ''tiff'' gt ws' (q st') = mset (b_tiff st) + owed ''tiff'' gt ws (q st)"
proof (cases a)
  case Control
  with assms have "stop_workers_step (pc, ws, st) = Some (pc', ws', st')"
    by (simp add: sys_step_def)
  then show ?thesis
    by (cases rule: stop_workers_step_cases) (simp_all add: owed_snoc out_of_def)
next
  case (Worker w)
  with assms have "img_loader_step li gt w (ws, st) = Some (ws', st')"
    by (auto simp: sys_step_def split: option.splits)
  then show ?thesis by (rule conserve_worker)
qed

lemma conserve_run:
  assumes "run li gt sched (pc0, ws0, st0) = (pc, ws, st)"
  shows "mset (b_rgb st) + owed ''rgb'' li ws (q st) = mset (b_rgb st0) + owed ''rgb'' li ws0 (q st0)
    \<and> mset (b_ir st) + owed ''ir'' li ws (q st) = mset (b_ir st0) + owed ''ir'' li ws0 (q st0)
    \<and> mset (b_tiff st) + owed ''tiff'' gt ws (q st) = mset (b_tiff st0) + owed ''tiff'' gt ws0 (q st0)"
proof -
  let ?P = "\<lambda>c. case c of (pc, ws, st) \<Rightarrow>
      mset (b_rgb st) + owed ''rgb'' li ws (q st) = mset (b_rgb st0) + owed ''rgb'' li ws0 (q st0)
    \<and> mset (b_ir st) + owed ''ir'' li ws (q st) = mset (b_ir st0) + owed ''ir'' li ws0 (q st0)
    \<and> mset (b_tiff st) + owed ''tiff'' gt ws (q st) = mset (b_tiff st0) + owed ''tiff'' gt ws0 (q st0)"
  have "?P (run li gt sched (pc0, ws0, st0))"
  proof (rule run_induct)
    show "?P (pc0, ws0, st0)" by simp
  next
    fix a c c' assume p: "?P c" and s: "sys_step li gt a c = Some c'"
    obtain pc ws st where c: "c = (pc, ws, st)" by (cases c) auto
    obtain pc' ws' st' where c': "c' = (pc', ws', st')" by (cases c') auto
    from conserve_step[of li gt a pc ws st pc' ws' st'] s p c c' show "?P c'" by simp
  qed
  with assms show ?thesis by simp
qed

lemma exited_less: "w < length ws \<Longrightarrow> ws ! w \<noteq> Exited \<Longrightarrow> exited ws < length ws"
  unfolding exited_def by (auto intro!: length_filter_less dest: nth_mem)

lemma progress:
  assumes inv: "stop_inv li gt (pc, ws, st)" and "pc \<noteq> Returned"
  shows "\<exists>a c'. sys_step li gt a (pc, ws, st) = Some c'"
proof (cases pc)
  case (Putting n)
  then have "stop_workers_step (pc, ws, st) \<noteq> None"
    by (simp add: stop_workers_step_def split: nat.splits)
  then show ?thesis by (intro exI[of _ Control]) (auto simp: sys_step_def)
next
  case (Joining j)
  show ?thesis
  proof (cases "j < length ws \<and> \<not> ended (ws ! j)")
    case False
    with Joining have "stop_workers_step (pc, ws, st) \<noteq> None"
      by (auto simp: stop_workers_step_def)
    then show ?thesis by (intro exI[of _ Control]) (auto simp: sys_step_def)
  next
    case True
    then have j: "j < length ws" and ne: "ws ! j \<noteq> Exited"
      by (auto simp: ended_def)
    from inv Joining obtain tasks m where
      qu: "q st = tasks @ replicate m Sentinel" and cnt: "m + exited ws = length ws"
      by (auto simp: stop_inv_def to_put_def)
    from exited_less[OF j ne] cnt have "m \<noteq> 0" by simp
    with qu have "q st \<noteq> []" by simp
    with True j have "img_loader_step li gt j (ws, st) \<noteq> None"
      by (cases "ws ! j")
         (auto simp: img_loader_step_def ended_def split: list.splits task.splits sum.splits)
    then show ?thesis by (intro exI[of _ "Worker j"]) (auto simp: sys_step_def)
  qed
next
  case Returned
  with assms show ?thesis by simp
qed

lemma returned_final:
  assumes inv: "stop_inv li gt (Returned, ws, st)" and "ws \<noteq> []"
  shows "list_all (\<lambda>s. s = Exited) ws \<and> q st = []"
proof -
  from inv obtain tasks m where
    qu: "q st = tasks @ replicate m Sentinel" and ex: "Exited \<in> set ws \<longrightarrow> tasks = []"
    and cnt: "m + exited ws = length ws" and all: "list_all (\<lambda>s. s = Exited) ws"
    by (auto simp: stop_inv_def to_put_def)
  from all have "exited ws = length ws" by (simp add: exited_def list_all_iff)
  with cnt have "m = 0" by simp
  moreover from all assms(2) have "Exited \<in> set ws" by (cases ws) (auto)
  ultimately show ?thesis using qu ex all by simp
qed

lemma stop_inv_start:
  assumes "list_all (live li gt) ws0" "list_all (decodes li gt) (q st0)"
  shows "stop_inv li gt (stop_workers ws0 st0)"
proof -
  from assms(1) have "Exited \<notin> set ws0" by (auto simp: list_all_iff live_def)
  then have "exited ws0 = 0" by (auto simp: exited_def filter_empty_conv)
  with assms \<open>Exited \<notin> set ws0\<close> show ?thesis
    unfolding stop_inv_def stop_workers_def
    apply (simp only: prod.case)
    apply (rule exI[of _ "q st0"], rule exI[of _ 0])
    by (auto simp: to_put_def list_all_iff)
qed

lemma length_step:
  assumes "sys_step li gt a (pc, ws, st) = Some (pc', ws', st')"
  shows "length ws' = length ws"
proof (cases a)
  case Control
  with assms have "stop_workers_step (pc, ws, st) = Some (pc', ws', st')"
    by (simp add: sys_step_def)
  then show ?thesis by (cases rule: stop_workers_step_cases) simp_all
next
  case (Worker w)
  with assms have "img_loader_step li gt w (ws, st) = Some (ws', st')"
    by (auto simp: sys_step_def split: option.splits)
  then show ?thesis by (cases rule: img_loader_step_cases) simp_all
qed

lemma length_run:
  assumes "run li gt sched (pc0, ws0, st0) = (pc, ws, st)"
  shows "length ws = length ws0"
proof -
  have "(\<lambda>c. length (fst (snd c)) = length ws0) (run li gt sched (pc0, ws0, st0))"
  proof (rule run_induct)
    show "length (fst (snd (pc0, ws0, st0))) = length ws0" by simp
  next
    fix a c c' assume p: "length (fst (snd c)) = length ws0" and s: "sys_step li gt a c = Some c'"
    obtain pc ws st where c: "c = (pc, ws, st)" by (cases c) auto
    obtain pc' ws' st' where c': "c' = (pc', ws', st')" by (cases c') auto
    from length_step[of li gt a pc ws st pc' ws' st'] s p c c'
    show "length (fst (snd c')) = length ws0" by simp
  qed
  with assms show ?thesis by simp
qed

lemma owed_exited: "list_all (\<lambda>s. s = Exited) ws \<Longrightarrow> owed kind dec ws [] = {#}"
  by (induction ws) (simp_all add: owed_def holding_def)

lemma puts_alone:
  "run li gt (replicate n Control) (Putting n, ws, st)
     = (Putting 0, ws, st\<lparr>q := q st @ replicate n Sentinel\<rparr>)"
proof (induction n arbitrary: st)
  case 0
  then show ?case by simp
next
  case (Suc n)
  have "sys_step li gt Control (Putting (Suc n), ws, st)
          = Some (Putting n, ws, st\<lparr>q := q st @ [Sentinel]\<rparr>)"
    by (simp add: sys_step_def stop_workers_step_def)
  with Suc[of "st\<lparr>q := q st @ [Sentinel]\<rparr>"] show ?case
    by (simp add: replicate_app_Cons_same)
qed





subsection \<open>A decode that raises\<close>






subsection \<open>Stopping the pool\<close>

text \<open>
  Claim C8, as the source has it and for the case it holds in: at least one worker, all
  workers running, and every pending or held task decodes. \<^verbatim>\<open>stop_workers\<close> run with the
  workers under any schedule: its puts alone append one sentinel per worker after the
  pending tasks. At every point of every schedule the queue is pending load tasks
  followed by sentinels; the sentinels on the queue, those still to be put and the
  workers that have left add up to the number of workers (each sentinel taken has ended
  one worker); no worker has crashed; and once a worker has left, no load task is on
  the queue (every pending task is taken before the first sentinel is). When
  \<^verbatim>\<open>stop_workers\<close> has returned every worker has left, the queue is empty, and each
  stack holds what it held plus the results of the pending and held tasks of its kind.
  Until it has returned some thread can move, and every move of any thread lowers
  \<open>effort\<close>, so every schedule that keeps moving reaches the return.
\<close>

theorem stop_workers_drains:
  assumes "ws0 \<noteq> []" and "list_all (live li gt) ws0" and "list_all (decodes li gt) (q st0)"
    and "run li gt sched (stop_workers ws0 st0) = (pc, ws, st)"
  shows "run li gt (replicate (length ws0) Control) (stop_workers ws0 st0)
           = (Putting 0, ws0, st0\<lparr>q := q st0 @ replicate (length ws0) Sentinel\<rparr>)
       \<and> (\<exists>tasks m. q st = tasks @ replicate m Sentinel
             \<and> list_all (decodes li gt) tasks
             \<and> m + to_put pc + exited ws = length ws0
             \<and> (Exited \<in> set ws \<longrightarrow> tasks = []))
       \<and> length ws = length ws0
       \<and> list_all (\<lambda>s. live li gt s \<or> s = Exited) ws
       \<and> (pc = Returned \<longrightarrow>
             list_all (\<lambda>s. s = Exited) ws \<and> q st = []
             \<and> mset (b_rgb st) = mset (b_rgb st0) + owed ''rgb'' li ws0 (q st0)
             \<and> mset (b_ir st) = mset (b_ir st0) + owed ''ir'' li ws0 (q st0)
             \<and> mset (b_tiff st) = mset (b_tiff st0) + owed ''tiff'' gt ws0 (q st0))
       \<and> (pc \<noteq> Returned \<longrightarrow> (\<exists>a c'. sys_step li gt a (pc, ws, st) = Some c'))
       \<and> (\<forall>a c'. sys_step li gt a (pc, ws, st) = Some c' \<longrightarrow> effort c' < effort (pc, ws, st))"
proof -
  have inv: "stop_inv li gt (pc, ws, st)"
    using stop_inv_run[OF stop_inv_start[OF assms(2,3)], of sched] assms(4) by simp
  have len: "length ws = length ws0"
    using length_run[of li gt sched "Putting (length ws0)" ws0 st0 pc ws st] assms(4)
    by (simp add: stop_workers_def)
  note cons = conserve_run[of li gt sched "Putting (length ws0)" ws0 st0 pc ws st]
  have 1: "run li gt (replicate (length ws0) Control) (stop_workers ws0 st0)
           = (Putting 0, ws0, st0\<lparr>q := q st0 @ replicate (length ws0) Sentinel\<rparr>)"
    by (simp add: stop_workers_def puts_alone)
  from inv len have 2: "\<exists>tasks m. q st = tasks @ replicate m Sentinel
             \<and> list_all (decodes li gt) tasks
             \<and> m + to_put pc + exited ws = length ws0
             \<and> (Exited \<in> set ws \<longrightarrow> tasks = [])"
    unfolding stop_inv_def by (simp only: prod.case) metis
  from inv have 3: "list_all (\<lambda>s. live li gt s \<or> s = Exited) ws"
    by (auto simp: stop_inv_def)
  have 4: "list_all (\<lambda>s. s = Exited) ws \<and> q st = []
             \<and> mset (b_rgb st) = mset (b_rgb st0) + owed ''rgb'' li ws0 (q st0)
             \<and> mset (b_ir st) = mset (b_ir st0) + owed ''ir'' li ws0 (q st0)
             \<and> mset (b_tiff st) = mset (b_tiff st0) + owed ''tiff'' gt ws0 (q st0)"
    if r: "pc = Returned"
  proof -
    from assms(1) len have ne: "ws \<noteq> []" by auto
    from returned_final[OF inv[unfolded r] ne] have f: "list_all (\<lambda>s. s = Exited) ws" "q st = []"
      by simp_all
    from f(1) have h: "\<And>kind dec. owed kind dec ws [] = {#}"
      by (rule owed_exited)
    have o: "owed ''rgb'' li ws (q st) = {#}" "owed ''ir'' li ws (q st) = {#}"
        "owed ''tiff'' gt ws (q st) = {#}"
      using f(2) h by simp_all
    from cons assms(4) o f show ?thesis by (simp add: stop_workers_def)
  qed
  from progress[OF inv] have 5: "pc \<noteq> Returned \<longrightarrow> (\<exists>a c'. sys_step li gt a (pc, ws, st) = Some c')"
    by blast
  have 6: "\<forall>a c'. sys_step li gt a (pc, ws, st) = Some c' \<longrightarrow> effort c' < effort (pc, ws, st)"
    using effort_step by blast
  from 1 2 len 3 4 5 6 show ?thesis by blast
qed

theorem stop_workers_drains_witness:
  "start_img_loaders 10 \<noteq> []
   \<and> list_all (live echo echo) (start_img_loaders 10)
   \<and> list_all (decodes echo echo) (q three_pending)
   \<and> run echo echo ten_and_three (stop_workers (start_img_loaders 10) three_pending)
       = (Returned, replicate 10 Exited,
          three_pending\<lparr>q := [], b_rgb := [(8, 26)], b_ir := [(8, 20)], b_tiff := [(8, 30)]\<rparr>)
   \<and> owed ''rgb'' echo (start_img_loaders 10) (q three_pending) = {#(8, 26)#}
   \<and> owed ''ir'' echo (start_img_loaders 10) (q three_pending) = {#(8, 20)#}
   \<and> owed ''tiff'' echo (start_img_loaders 10) (q three_pending) = {#(8, 30)#}"
proof -
  have a: "start_img_loaders 10 \<noteq> []" by code_simp
  have b: "list_all (live echo echo) (start_img_loaders 10)" by code_simp
  have c: "list_all (decodes echo echo) (q three_pending)" by code_simp
  have d: "run echo echo ten_and_three (stop_workers (start_img_loaders 10) three_pending)
       = (Returned, replicate 10 Exited,
          three_pending\<lparr>q := [], b_rgb := [(8, 26)], b_ir := [(8, 20)], b_tiff := [(8, 30)]\<rparr>)"
    by code_simp
  have e: "b_rgb three_pending = []" "b_ir three_pending = []" "b_tiff three_pending = []"
    by (simp_all add: three_pending_def preload_def)
  from stop_workers_drains[OF a b c d] a b c d e show ?thesis by simp
qed

text \<open>
  Claim C8 as stated covers every pool and every pending task, processed before the
  sentinels are consumed. With one worker and the task of an unreadable file ahead of a
  good one, \<^verbatim>\<open>stop_workers\<close> returns with the worker crashed and the good task and the
  sentinel left on the queue. With two workers and one task, one worker holds the task,
  not yet decoded, when the other takes a sentinel and leaves. With no worker,
  \<^verbatim>\<open>stop_workers\<close> returns with the task on the queue.
\<close>

theorem stop_workers_drops_and_overtakes:
  "run picky picky [Worker 0, Worker 0, Control, Control, Control, Control]
       (stop_workers (start_img_loaders 1)
          ((preload seq20 :: (nat, nat) state)
             \<lparr>q := [Load 3 ''missing.JPG'' ''rgb'', Load 4 ''ok.JPG'' ''rgb'']\<rparr>))
     = (Returned, [Crashed DecodeError],
        (preload seq20)\<lparr>q := [Load 4 ''ok.JPG'' ''rgb'', Sentinel]\<rparr>)
   \<and> run echo echo [Control, Control, Worker 0, Worker 1]
       (stop_workers (start_img_loaders 2)
          ((preload seq20 :: (nat, nat) state)\<lparr>q := [Load 4 ''ok.JPG'' ''rgb'']\<rparr>))
     = (Putting 0, [Working 4 ''ok.JPG'' ''rgb'', Exited], (preload seq20)\<lparr>q := [Sentinel]\<rparr>)
   \<and> run echo echo [Control, Control]
       (stop_workers (start_img_loaders 0)
          ((preload seq20 :: (nat, nat) state)\<lparr>q := [Load 4 ''ok.JPG'' ''rgb'']\<rparr>))
     = (Returned, [], (preload seq20)\<lparr>q := [Load 4 ''ok.JPG'' ''rgb'']\<rparr>)"
  by code_simp

end
